theory Spec2Isabelle
  imports Main "HOL-Library.Word"
begin

section \<open>Bytes and the string helpers of the Go library\<close>

text \<open>
  A Go \<^verbatim>\<open>[]byte\<close> and a Go \<^verbatim>\<open>string\<close> are both sequences of bytes; both are
  modelled as \<^typ>\<open>string\<close> (a list of 8-bit characters).
\<close>

abbreviation nl :: char where "nl \<equiv> CHR 0x0A"
abbreviation tab :: char where "tab \<equiv> CHR 0x09"
abbreviation dq :: char where "dq \<equiv> CHR 0x22"

text \<open>The slice expression \<^verbatim>\<open>o[a:b]\<close>, for \<open>a \<le> b \<le> len(o)\<close>.\<close>

definition slice :: "'a list \<Rightarrow> nat \<Rightarrow> nat \<Rightarrow> 'a list" where
  "slice xs a b = take (b - a) (drop a xs)"

text \<open>
  \<^verbatim>\<open>strings.Split(s, sep)\<close> for a one-byte separator: the pieces between the
  separators, so one piece more than there are separators; the empty string gives one
  empty piece.
\<close>

fun split_on :: "char \<Rightarrow> string \<Rightarrow> string list" where
  "split_on c [] = [[]]"
| "split_on c (x # xs) =
     (if x = c then [] # split_on c xs
      else (case split_on c xs of
              [] \<Rightarrow> [[x]]
            | p # ps \<Rightarrow> (x # p) # ps))"

text \<open>
  \<^verbatim>\<open>strings.Trim(s, cutset)\<close>: all leading and all trailing bytes that occur in the
  cutset are removed (the cutsets used here are ASCII).
\<close>

definition trim :: "string \<Rightarrow> string \<Rightarrow> string" where
  "trim s cutset =
     rev (dropWhile (\<lambda>c. c \<in> set cutset) (rev (dropWhile (\<lambda>c. c \<in> set cutset) s)))"

section \<open>The regular expressions of the scan parser\<close>

text \<open>
  Go's \<^verbatim>\<open>regexp\<close> package returns the leftmost match and, among the matches that
  start there, the one a backtracking search finds first. The expressions of the parser
  use only: \<^verbatim>\<open>(?m)^\<close> and \<^verbatim>\<open>$\<close> (line boundaries), literal bytes, the classes
  \<^verbatim>\<open>\s\<close> and \<^verbatim>\<open>.\<close>, the greedy star of a class, and one alternation of two
  literals. An expression is the list of its items, matched in sequence by a
  backtracking matcher.
\<close>

datatype cls = Space | Dot

datatype re_item = Bol | Eol | Lit char | One cls | Star cls | Alt string string

type_synonym regexp = "re_item list"

text \<open>The class \<^verbatim>\<open>\s\<close> of RE2 is \<^verbatim>\<open>[\t\n\f\r ]\<close>.\<close>

definition is_space :: "char \<Rightarrow> bool" where
  "is_space c \<longleftrightarrow> c = tab \<or> c = nl \<or> c = CHR 0x0C \<or> c = CHR 0x0D \<or> c = CHR '' ''"

text \<open>
  \<^verbatim>\<open>.\<close> matches one code point other than newline. On bytes, Go decodes one UTF-8
  sequence (\<^verbatim>\<open>utf8.DecodeRune\<close>): a well-formed sequence of 2 to 4 bytes counts as
  one code point, any other byte counts alone.
\<close>

definition cont :: "nat \<Rightarrow> nat \<Rightarrow> char \<Rightarrow> bool" where
  "cont lo hi c \<longleftrightarrow> lo \<le> (of_char c :: nat) \<and> (of_char c :: nat) \<le> hi"

fun rune_width :: "string \<Rightarrow> nat" where
  "rune_width (a # b # c # d # _) =
     (let x = (of_char a :: nat) in
      if 0xC2 \<le> x \<and> x \<le> 0xDF \<and> cont 0x80 0xBF b then 2
      else if x = 0xE0 \<and> cont 0xA0 0xBF b \<and> cont 0x80 0xBF c then 3
      else if x = 0xED \<and> cont 0x80 0x9F b \<and> cont 0x80 0xBF c then 3
      else if 0xE1 \<le> x \<and> x \<le> 0xEF \<and> x \<noteq> 0xED \<and> cont 0x80 0xBF b \<and> cont 0x80 0xBF c then 3
      else if x = 0xF0 \<and> cont 0x90 0xBF b \<and> cont 0x80 0xBF c \<and> cont 0x80 0xBF d then 4
      else if 0xF1 \<le> x \<and> x \<le> 0xF3 \<and> cont 0x80 0xBF b \<and> cont 0x80 0xBF c \<and> cont 0x80 0xBF d then 4
      else if x = 0xF4 \<and> cont 0x80 0x8F b \<and> cont 0x80 0xBF c \<and> cont 0x80 0xBF d then 4
      else 1)"
| "rune_width [a, b, c] =
     (let x = (of_char a :: nat) in
      if 0xC2 \<le> x \<and> x \<le> 0xDF \<and> cont 0x80 0xBF b then 2
      else if x = 0xE0 \<and> cont 0xA0 0xBF b \<and> cont 0x80 0xBF c then 3
      else if x = 0xED \<and> cont 0x80 0x9F b \<and> cont 0x80 0xBF c then 3
      else if 0xE1 \<le> x \<and> x \<le> 0xEF \<and> x \<noteq> 0xED \<and> cont 0x80 0xBF b \<and> cont 0x80 0xBF c then 3
      else 1)"
| "rune_width [a, b] =
     (let x = (of_char a :: nat) in
      if 0xC2 \<le> x \<and> x \<le> 0xDF \<and> cont 0x80 0xBF b then 2 else 1)"
| "rune_width [a] = 1"
| "rune_width [] = 0"

text \<open>
  How many bytes one occurrence of a class takes at the head of the text, if it matches
  there.
\<close>

fun cls_width :: "cls \<Rightarrow> string \<Rightarrow> nat option" where
  "cls_width k [] = None"
| "cls_width Space (c # s) = (if is_space c then Some 1 else None)"
| "cls_width Dot (c # s) = (if c = nl then None else Some (rune_width (c # s)))"

text \<open>
  The matcher. \<open>rmatch re prev s\<close> matches the items \<open>re\<close> at the head of \<open>s\<close>, where
  \<open>prev\<close> is the byte before \<open>s\<close> in the whole text (\<open>None\<close> at the beginning of the
  text); the result is the number of bytes matched. In multi-line mode \<^verbatim>\<open>^\<close> holds
  at the beginning of the text and after a newline, \<^verbatim>\<open>$\<close> at the end of the text and
  before a newline. A star first takes one more occurrence and falls back to none.
\<close>

fun item_weight :: "re_item \<Rightarrow> nat" where
  "item_weight (Alt a b) = Suc (length a + length b)"
| "item_weight _ = Suc 0"

lemma rune_width_bounds: "s \<noteq> [] \<Longrightarrow> 0 < rune_width s \<and> rune_width s \<le> length s"
  by (induction s rule: rune_width.induct) (simp_all add: Let_def)

lemma cls_width_bounds: "cls_width k s = Some w \<Longrightarrow> 0 < w \<and> w \<le> length s"
proof (induction k s rule: cls_width.induct)
  case (3 c s)
  then show ?case
    using rune_width_bounds [of "c # s"] by (auto split: if_splits)
qed (auto split: if_splits)

lemma weight_lits: "sum_list (map (item_weight \<circ> Lit) a) = length a"
  by (induction a) simp_all

function rmatch :: "regexp \<Rightarrow> char option \<Rightarrow> string \<Rightarrow> nat option" where
  "rmatch [] prev s = Some 0"
| "rmatch (Bol # re) prev s =
     (if prev = None \<or> prev = Some nl then rmatch re prev s else None)"
| "rmatch (Eol # re) prev s =
     (if s = [] \<or> hd s = nl then rmatch re prev s else None)"
| "rmatch (Lit c # re) prev s =
     (case s of
        [] \<Rightarrow> None
      | x # s' \<Rightarrow> if x = c then map_option Suc (rmatch re (Some x) s') else None)"
| "rmatch (One k # re) prev s =
     (case cls_width k s of
        None \<Rightarrow> None
      | Some w \<Rightarrow> map_option (\<lambda>n. w + n) (rmatch re (Some (s ! (w - 1))) (drop w s)))"
| "rmatch (Star k # re) prev s =
     (case cls_width k s of
        None \<Rightarrow> rmatch re prev s
      | Some w \<Rightarrow>
          (case rmatch (Star k # re) (Some (s ! (w - 1))) (drop w s) of
             Some n \<Rightarrow> Some (w + n)
           | None \<Rightarrow> rmatch re prev s))"
| "rmatch (Alt a b # re) prev s =
     (case rmatch (map Lit a @ re) prev s of
        Some n \<Rightarrow> Some n
      | None \<Rightarrow> rmatch (map Lit b @ re) prev s)"
  by pat_completeness auto
termination
  by (relation "measures [\<lambda>(re, prev, s). sum_list (map item_weight re),
                           \<lambda>(re, prev, s). length s]")
     (auto dest: cls_width_bounds simp: weight_lits)

text \<open>The leftmost match at or after the current position, as a pair (start, end).\<close>

fun search :: "regexp \<Rightarrow> char option \<Rightarrow> nat \<Rightarrow> string \<Rightarrow> (nat \<times> nat) option" where
  "search re prev pos [] = map_option (\<lambda>n. (pos, pos + n)) (rmatch re prev [])"
| "search re prev pos (c # s) =
     (case rmatch re prev (c # s) of
        Some n \<Rightarrow> Some (pos, pos + n)
      | None \<Rightarrow> search re (Some c) (Suc pos) s)"

text \<open>The equation of the star calls itself on the same expression: it is unfolded by hand.\<close>

declare rmatch.simps(6) [simp del]

lemma rmatch_le: "rmatch re prev s = Some n \<Longrightarrow> n \<le> length s"
proof (induction re prev s arbitrary: n rule: rmatch.induct)
  case (1 prev s)
  then show ?case by simp
next
  case (2 re prev s)
  then show ?case by (simp split: if_splits)
next
  case (3 re prev s)
  then show ?case by (simp split: if_splits)
next
  case (4 c re prev s)
  then show ?case by (cases s) (auto split: if_splits)
next
  case (5 k re prev s)
  from "5.prems" obtain w m where w: "cls_width k s = Some w"
    and m: "rmatch re (Some (s ! (w - 1))) (drop w s) = Some m" and n: "n = w + m"
    by (auto split: option.splits)
  from "5.IH" [OF w m] cls_width_bounds [OF w] n show ?case by (simp; arith)
next
  case (6 k re prev s)
  show ?case
  proof (cases "cls_width k s")
    case None
    with "6.prems" have "rmatch re prev s = Some n" by (simp add: rmatch.simps(6))
    with "6.IH"(1) [OF None] show ?thesis .
  next
    case (Some w)
    show ?thesis
    proof (cases "rmatch (Star k # re) (Some (s ! (w - 1))) (drop w s)")
      case None
      with Some "6.prems" have "rmatch re prev s = Some n" by (simp add: rmatch.simps(6))
      with "6.IH"(3) [OF Some None] show ?thesis .
    next
      case inner: (Some m)
      with Some "6.prems" have n: "n = w + m" by (simp add: rmatch.simps(6))
      from "6.IH"(2) [OF Some inner] cls_width_bounds [OF Some] n show ?thesis by (simp; arith)
    qed
  qed
next
  case (7 a b re prev s)
  then show ?case by (auto split: option.splits)
qed

lemma search_bounds:
  "search re prev pos s = Some (a, b) \<Longrightarrow> pos \<le> a \<and> a \<le> b \<and> b \<le> pos + length s"
proof (induction re prev pos s rule: search.induct)
  case (1 re prev pos)
  then show ?case by (auto dest: rmatch_le)
next
  case (2 re prev pos c s)
  show ?case
  proof (cases "rmatch re prev (c # s)")
    case None
    with 2 show ?thesis by simp
  next
    case (Some n)
    with "2.prems" rmatch_le [OF Some] show ?thesis by auto
  qed
qed

text \<open>
  All successive matches (the loop of \<^verbatim>\<open>FindAll\<close> in Go's \<^verbatim>\<open>regexp\<close>): the next
  search starts where the last match ended; after an empty match it starts one code
  point further, and an empty match right at the end of the previous match is dropped.
\<close>

function all_matches ::
  "regexp \<Rightarrow> char option \<Rightarrow> nat \<Rightarrow> nat option \<Rightarrow> string \<Rightarrow> (nat \<times> nat) list" where
  "all_matches re prev pos prevEnd s =
     (case search re prev pos s of
        None \<Rightarrow> []
      | Some (a, b) \<Rightarrow>
          if b = pos then
            (if prevEnd = Some a then [] else [(a, b)]) @
            (if s = [] then []
             else all_matches re (Some (s ! (rune_width s - 1))) (pos + rune_width s)
                    (Some b) (drop (rune_width s) s))
          else (a, b) #
            all_matches re (Some (s ! (b - pos - 1))) b (Some b) (drop (b - pos) s))"
  by pat_completeness auto
termination
proof (relation "measure (\<lambda>(re, prev, pos, prevEnd, s). length s)", goal_cases)
  case 1
  show ?case by simp
next
  case (2 re prev pos prevEnd s x a b)
  then show ?case using rune_width_bounds [of s] by simp
next
  case (3 re prev pos prevEnd s x a b)
  then show ?case using search_bounds [of re prev pos s a b] by auto
qed

declare all_matches.simps [simp del]

definition FindAllIndex :: "regexp \<Rightarrow> string \<Rightarrow> (nat \<times> nat) list" where
  "FindAllIndex re b = all_matches re None 0 None b"

definition FindAll :: "regexp \<Rightarrow> string \<Rightarrow> string list" where
  "FindAll re b = map (\<lambda>(i, j). slice b i j) (FindAllIndex re b)"

definition FindIndex :: "regexp \<Rightarrow> string \<Rightarrow> (nat \<times> nat) option" where
  "FindIndex re b = search re None 0 b"

text \<open>\<^verbatim>\<open>Find\<close> returns nil when there is no match; as a string, nil is empty.\<close>

definition Find :: "regexp \<Rightarrow> string \<Rightarrow> string" where
  "Find re b = (case FindIndex re b of None \<Rightarrow> [] | Some (i, j) \<Rightarrow> slice b i j)"

text \<open>
  The five expressions of the parser:
  \<^verbatim>\<open>(?m)^\s*Cell\<close>,
  \<^verbatim>\<open>(?m)^\s*ESSID.*\<close>,
  \<^verbatim>\<open>(?m)^\s*Encryption key:(on|off)$\<close>,
  \<^verbatim>\<open>(?m)^\s*IE: IEEE 802.11i/WPA2 Version 1$\<close> (the dot after 802 is the class
  \<^verbatim>\<open>.\<close>, not a literal) and
  \<^verbatim>\<open>(?m)^\s*Authentication Suites .*$\<close>.
\<close>

definition cellRE :: regexp where
  "cellRE = [Bol, Star Space] @ map Lit ''Cell''"

definition essidRE :: regexp where
  "essidRE = [Bol, Star Space] @ map Lit ''ESSID'' @ [Star Dot]"

definition encKeyOptRE :: regexp where
  "encKeyOptRE = [Bol, Star Space] @ map Lit ''Encryption key:'' @ [Alt ''on'' ''off'', Eol]"

definition wpa2RE :: regexp where
  "wpa2RE = [Bol, Star Space] @ map Lit ''IE: IEEE 802'' @ [One Dot] @
            map Lit ''11i/WPA2 Version 1'' @ [Eol]"

definition authSuitesRE :: regexp where
  "authSuitesRE = [Bol, Star Space] @ map Lit ''Authentication Suites '' @ [Star Dot, Eol]"

section \<open>The scan parser\<close>

datatype SecProto = NoEnc | WpaPsk | WpaEap | NotSupportedProto

record WifiOption =
  Essid :: string
  AuthSuite :: SecProto

text \<open>
  The run-time panics of \<^verbatim>\<open>parseIwlistOut\<close>: an index into the ESSID lines or into
  the encryption lines that is out of range, the index \<^verbatim>\<open>[1]\<close> into the pieces of a
  \<^verbatim>\<open>strings.Split\<close> when there is only one piece, and slice bounds out of range.
\<close>

datatype panic = EssidsIndex | EncKeyOptsIndex | SplitIndex | SliceBounds

text \<open>The index expression \<^verbatim>\<open>strings.Split(s, ":")[1]\<close>.\<close>

definition split_second :: "string \<Rightarrow> panic + string" where
  "split_second s =
     (case split_on CHR '':'' s of
        _ # f # _ \<Rightarrow> Inr f
      | _ \<Rightarrow> Inl SplitIndex)"

text \<open>\<^verbatim>\<open>strings.Trim(strings.Split(string(essids[i]), ":")[1], "\"\n")\<close>\<close>

definition essid_at :: "string list \<Rightarrow> nat \<Rightarrow> panic + string" where
  "essid_at essids i =
     (if i < length essids then
        (case split_second (essids ! i) of
           Inl p \<Rightarrow> Inl p
         | Inr f \<Rightarrow> Inr (trim f [dq, nl]))
      else Inl EssidsIndex)"

text \<open>\<^verbatim>\<open>strings.Trim(strings.Split(string(encKeyOpts[i]), ":")[1], "\n")\<close>\<close>

definition encKeyOpt_at :: "string list \<Rightarrow> nat \<Rightarrow> panic + string" where
  "encKeyOpt_at encKeyOpts i =
     (if i < length encKeyOpts then
        (case split_second (encKeyOpts ! i) of
           Inl p \<Rightarrow> Inl p
         | Inr f \<Rightarrow> Inr (trim f [nl]))
      else Inl EncKeyOptsIndex)"

text \<open>
  The search area of cell \<open>i\<close>: from the start of its \<^verbatim>\<open>Cell\<close> match to the start
  of the next one, or to the end of the text for the last cell
  (\<^verbatim>\<open>start, end := cells[i][0], len(o)\<close>, then \<^verbatim>\<open>end = cells[i+1][0]\<close> unless
  \<open>i\<close> is the last index, then \<^verbatim>\<open>o[start:end]\<close>). It is used for \<open>i < len(cells)\<close>
  only. The text \<^verbatim>\<open>o\<close> of the source is called \<open>raw\<close> here.
\<close>

definition wpa2SearchArea :: "string \<Rightarrow> (nat \<times> nat) list \<Rightarrow> nat \<Rightarrow> panic + string" where
  "wpa2SearchArea raw cells i =
     (let start = fst (cells ! i);
          stop = (if i \<noteq> length cells - 1 then fst (cells ! (i + 1)) else length raw)
      in if stop < start \<or> length raw < stop then Inl SliceBounds
         else Inr (slice raw start stop))"

text \<open>
  The authentication suite of a cell whose encryption is on (the part of the loop body
  after \<^verbatim>\<open>// Find the proper Authentication Suites\<close>).
\<close>

definition authSuite_at :: "string \<Rightarrow> (nat \<times> nat) list \<Rightarrow> nat \<Rightarrow> panic + SecProto" where
  "authSuite_at raw cells i =
     (case wpa2SearchArea raw cells i of
        Inl p \<Rightarrow> Inl p
      | Inr area \<Rightarrow>
          (case FindIndex wpa2RE area of
             None \<Rightarrow> Inr NotSupportedProto
           | Some l \<Rightarrow>
               (let authSearchArea = drop (fst l) area in
                case split_second (Find authSuitesRE authSearchArea) of
                  Inl p \<Rightarrow> Inl p
                | Inr f \<Rightarrow>
                    (let authSuites = trim f [nl, CHR '' ''] in
                     if authSuites = ''PSK'' then Inr WpaPsk
                     else if authSuites = ''802.1x'' then Inr WpaEap
                     else Inr NotSupportedProto))))"

text \<open>The security of cell \<open>i\<close>, once its ESSID is known to be new.\<close>

definition security_at ::
  "string \<Rightarrow> (nat \<times> nat) list \<Rightarrow> string list \<Rightarrow> nat \<Rightarrow> panic + SecProto" where
  "security_at raw cells encKeyOpts i =
     (case encKeyOpt_at encKeyOpts i of
        Inl p \<Rightarrow> Inl p
      | Inr encKeyOpt \<Rightarrow>
          if encKeyOpt = ''off'' then Inr NoEnc else authSuite_at raw cells i)"

text \<open>
  The loop \<^verbatim>\<open>for i := 0; i < len(cells); i++\<close>, with the map \<^verbatim>\<open>knownEssids\<close>
  (a missing key reads as false) and the result slice \<^verbatim>\<open>res\<close> passed along.
\<close>

function assemble ::
  "string \<Rightarrow> (nat \<times> nat) list \<Rightarrow> string list \<Rightarrow> string list \<Rightarrow> nat \<Rightarrow>
   (string \<rightharpoonup> bool) \<Rightarrow> WifiOption list \<Rightarrow> panic + WifiOption list" where
  "assemble raw cells essids encKeyOpts i knownEssids res =
     (if i < length cells then
        (case essid_at essids i of
           Inl p \<Rightarrow> Inl p
         | Inr essid \<Rightarrow>
             if knownEssids essid = Some True then
               assemble raw cells essids encKeyOpts (Suc i) knownEssids res
             else
               (case security_at raw cells encKeyOpts i of
                  Inl p \<Rightarrow> Inl p
                | Inr sec \<Rightarrow>
                    assemble raw cells essids encKeyOpts (Suc i)
                      (knownEssids(essid \<mapsto> True))
                      (res @ [\<lparr>Essid = essid, AuthSuite = sec\<rparr>])))
      else Inr res)"
  by pat_completeness auto
termination
  by (relation "measure (\<lambda>(raw, cells, essids, encKeyOpts, i, knownEssids, res).
                            length cells - i)") auto

declare assemble.simps [simp del]

definition parseIwlistOut :: "string \<Rightarrow> panic + WifiOption list" where
  "parseIwlistOut raw =
     (let cells = FindAllIndex cellRE raw;
          essids = FindAll essidRE raw;
          encKeyOpts = FindAll encKeyOptRE raw
      in if cells = [] then Inr []
         else assemble raw cells essids encKeyOpts 0 Map.empty [])"

section \<open>The profile generator\<close>

text \<open>The two templates of the source; each line break is followed by tabs as written there.\<close>

definition nopassphrase :: string where
  "nopassphrase =
     ''network={'' @ [nl, tab, tab] @ ''ssid='' @ [dq] @ ''%s'' @ [dq] @
     [nl, tab, tab] @ ''proto=RSN'' @
     [nl, tab, tab] @ ''key_mgmt=NONE'' @
     [nl, tab] @ ''}''"

definition eap :: string where
  "eap =
     ''network={'' @ [nl, tab, tab] @ ''ssid='' @ [dq] @ ''%s'' @ [dq] @
     [nl, tab, tab] @ ''key_mgmt=WPA-EAP'' @
     [nl, tab, tab] @ ''identity='' @ [dq] @ ''%s'' @ [dq] @
     [nl, tab, tab] @ ''password='' @ [dq] @ ''%s'' @ [dq] @
     [nl, tab] @ ''}''"

text \<open>
  \<^verbatim>\<open>fmt.Sprintf\<close> for a format whose only verb is \<^verbatim>\<open>%s\<close>, with string operands:
  each verb is replaced by the next operand, which is copied as it is; a verb without
  operand prints \<^verbatim>\<open>%!s(MISSING)\<close>, operands left over are reported at the end.
\<close>

fun extra_operands :: "string list \<Rightarrow> string" where
  "extra_operands [] = []"
| "extra_operands [a] = ''string='' @ a"
| "extra_operands (a # as) = ''string='' @ a @ '', '' @ extra_operands as"

fun Sprintf :: "string \<Rightarrow> string list \<Rightarrow> string" where
  "Sprintf [] as = (if as = [] then [] else ''%!(EXTRA '' @ extra_operands as @ '')'')"
| "Sprintf [c] as = (if c = CHR ''%'' then ''%!(NOVERB)'' else [c]) @ Sprintf [] as"
| "Sprintf (c # d # fs) as =
     (if c = CHR ''%'' \<and> d = CHR ''s'' then
        (case as of
           [] \<Rightarrow> ''%!s(MISSING)'' @ Sprintf fs []
         | a # as' \<Rightarrow> a @ Sprintf fs as')
      else c # Sprintf (d # fs) as)"

text \<open>
  \<^verbatim>\<open>generateConfig(a ...string)\<close>. The key derivation \<^verbatim>\<open>passphrase.Run\<close> belongs
  to another package and is a parameter \<open>run\<close>: it gives the profile or an error message.
  An error of \<^verbatim>\<open>generateConfig\<close> is its message; with an error no profile is returned.
\<close>

definition generateConfig ::
  "(string \<Rightarrow> string \<Rightarrow> string + string) \<Rightarrow> string list \<Rightarrow> string + string" where
  "generateConfig run a =
     (if length a = 3 then Inr (Sprintf eap [a ! 0, a ! 2, a ! 1])
      else if length a = 2 then
        (case run (a ! 0) (a ! 1) of
           Inl err \<Rightarrow> Inl (''essid: '' @ a ! 0 @ '', pass: '' @ a ! 1 @ '' : '' @ err)
         | Inr conf \<Rightarrow> Inr conf)
      else if length a = 1 then Inr (Sprintf nopassphrase [a ! 0])
      else Inl ''generateConfig needs 1, 2, or 3 args'')"

section \<open>The DHCPv4 lease loop\<close>

text \<open>A \<^verbatim>\<open>time.Duration\<close> is a number of nanoseconds.\<close>

type_synonym duration = int

definition second :: duration where
  "second = 1000000000"

definition timeout :: duration where
  "timeout = 15 * second"

definition slop :: duration where
  "slop = 10 * second"

text \<open>
  Modelled from the spec: the lease and the packet of package \<^verbatim>\<open>dhclient\<close>, which are
  not part of the source. A lease has a valid lifetime, 0 standing for an infinite lease;
  a packet gives its leases. The field \<open>xid\<close> only tells packets apart. A nil packet is
  represented by a packet without leases: reading its first lease panics as well.
\<close>

record lease =
  ValidLifetime :: duration

record packet =
  xid :: nat
  Leases :: "lease list"

definition nil_packet :: packet where
  "nil_packet = \<lparr>xid = 0, Leases = []\<rparr>"

text \<open>
  The error of an exchange is either a \<^verbatim>\<open>net.Error\<close> whose \<^verbatim>\<open>Timeout()\<close> holds, or
  any other error. \<^verbatim>\<open>client.Solicit()\<close> and \<^verbatim>\<open>client.Renew(packet)\<close> return a packet
  and an error; a run of the loop is driven by the list of these replies, one for each
  exchange in turn.
\<close>

datatype net_error = Timeout | OtherError

type_synonym reply = "packet \<times> net_error option"

text \<open>What the loop does, in order: its log lines, its calls and its sleeps.\<close>

datatype event =
    LogStart | LogResendRequest | LogResendRenewal | LogTimeout | LogError | LogInfinite
  | Solicit | Renew packet | HandlePacket packet | Sleep duration

text \<open>
  The errors \<^verbatim>\<open>dhclient4\<close> returns: \<^verbatim>\<open>"error: %v"\<close> for a failed
  \<^verbatim>\<open>dhclient.NewV4\<close> and \<^verbatim>\<open>"error handling pakcet: %v"\<close> for a failed
  \<^verbatim>\<open>dhclient.HandlePacket\<close>.
\<close>

datatype dhclient4_error = ErrNewV4 string | ErrHandlePacket string

text \<open>
  A run either returns (an error or nil), or panics, or is still waiting for the reply
  to an exchange when the list of replies ends.
\<close>

datatype outcome = Returned "dhclient4_error option" | Panicked | Waiting

text \<open>
  The inner loop \<^verbatim>\<open>for i := 0; i > -1; i++\<close>. The counter is a Go \<^verbatim>\<open>int\<close>, 64 bits
  wide on the usual platforms, and \<^verbatim>\<open>i++\<close> wraps around. The loop is left by
  \<^verbatim>\<open>break\<close> after an exchange without error, or by its condition once the counter
  has wrapped. The result has \<^verbatim>\<open>needsRequest\<close>, \<^verbatim>\<open>packet\<close>, the replies not yet
  used and the events of the loop.
\<close>

type_synonym go_int = "64 word"

datatype retry_result =
    Left bool packet "reply list" "event list"
  | Blocked "event list"

fun prepend :: "event list \<Rightarrow> retry_result \<Rightarrow> retry_result" where
  "prepend evs (Left n p rest es) = Left n p rest (evs @ es)"
| "prepend evs (Blocked es) = Blocked (evs @ es)"

definition exchange :: "bool \<Rightarrow> packet \<Rightarrow> go_int \<Rightarrow> event list" where
  "exchange needsRequest packet i =
     (if needsRequest then (if sint i > 0 then [LogResendRequest] else []) @ [Solicit]
      else (if sint i > 0 then [LogResendRenewal] else []) @ [Renew packet])"

fun retry_loop :: "bool \<Rightarrow> packet \<Rightarrow> go_int \<Rightarrow> reply list \<Rightarrow> retry_result" where
  "retry_loop needsRequest packet i [] =
     (if sint i > -1 then Blocked (exchange needsRequest packet i)
      else Left needsRequest packet [] [])"
| "retry_loop needsRequest packet i ((p, err) # rest) =
     (if sint i > -1 then
        (case err of
           Some e \<Rightarrow>
             prepend (exchange needsRequest packet i @
                      [if e = Timeout then LogTimeout else LogError])
               (retry_loop needsRequest p (i + 1) rest)
         | None \<Rightarrow> Left False p rest (exchange needsRequest packet i))
      else Left needsRequest packet ((p, err) # rest) [])"

lemma retry_loop_consumes:
  "retry_loop needsRequest packet i script = Left n p rest evs \<Longrightarrow>
   length rest \<le> length script \<and> (sint i > -1 \<longrightarrow> length rest < length script)"
proof (induction script arbitrary: packet i evs)
  case Nil
  then show ?case by (simp split: if_splits)
next
  case (Cons r script)
  obtain q err where r: "r = (q, err)" by (cases r)
  show ?case
  proof (cases "sint i > -1")
    case False
    with Cons.prems r show ?thesis by simp
  next
    case True
    show ?thesis
    proof (cases err)
      case None
      with Cons.prems r True show ?thesis by simp
    next
      case (Some e)
      with Cons.prems r True obtain es where
        "retry_loop needsRequest q (i + 1) script = Left n p rest es"
        by (cases "retry_loop needsRequest q (i + 1) script") auto
      from Cons.IH [OF this] True show ?thesis by simp
    qed
  qed
qed

text \<open>
  The outer loop \<^verbatim>\<open>for { ... }\<close> of \<^verbatim>\<open>dhclient4\<close>. \<open>handle\<close> stands for
  \<^verbatim>\<open>dhclient.HandlePacket(iface, packet)\<close> and gives its error, if any.
\<close>

function lease_loop ::
  "(packet \<Rightarrow> string option) \<Rightarrow> bool \<Rightarrow> packet \<Rightarrow> reply list \<Rightarrow> outcome \<times> event list" where
  "lease_loop handle needsRequest packet script =
     (case retry_loop needsRequest packet 0 script of
        Blocked evs \<Rightarrow> (Waiting, LogStart # evs)
      | Left needsRequest' packet' rest evs \<Rightarrow>
          (case handle packet' of
             Some e \<Rightarrow>
               (Returned (Some (ErrHandlePacket e)), LogStart # evs @ [HandlePacket packet'])
           | None \<Rightarrow>
               (case Leases packet' of
                  [] \<Rightarrow> (Panicked, LogStart # evs @ [HandlePacket packet'])
                | l # _ \<Rightarrow>
                    if ValidLifetime l = 0 then
                      (Returned None, LogStart # evs @ [HandlePacket packet', LogInfinite])
                    else
                      (case lease_loop handle needsRequest' packet' rest of
                         (out, tr) \<Rightarrow>
                           (out, LogStart # evs @
                                 [HandlePacket packet', Sleep (timeout - slop)] @ tr)))))"
  by pat_completeness auto
termination
proof (relation "measure (\<lambda>(handle, needsRequest, packet, script). length script)", goal_cases)
  case 1
  show ?case by simp
next
  case (2 handle needsRequest packet script n p rest evs)
  then show ?case using retry_loop_consumes [of needsRequest packet 0 script n p rest evs] by simp
qed

declare lease_loop.simps [simp del]

text \<open>
  \<^verbatim>\<open>dhclient4\<close>: \<open>newV4\<close> is the error of \<^verbatim>\<open>dhclient.NewV4\<close>, if any; the variables
  start as \<^verbatim>\<open>needsRequest = true\<close> and a nil \<^verbatim>\<open>packet\<close>.
\<close>

definition dhclient4 ::
  "string option \<Rightarrow> (packet \<Rightarrow> string option) \<Rightarrow> reply list \<Rightarrow> outcome \<times> event list" where
  "dhclient4 newV4 handle script =
     (case newV4 of
        Some e \<Rightarrow> (Returned (Some (ErrNewV4 e)), [])
      | None \<Rightarrow> lease_loop handle True nil_packet script)"

text \<open>
  Reading a trace. An exchange is a call of \<^verbatim>\<open>client.Solicit\<close> or of
  \<^verbatim>\<open>client.Renew\<close>. \<open>slept_before_exchange\<close> gives, for the part of a trace that
  follows some event, the next exchange and the total of the sleeps before it.
\<close>

fun is_exchange :: "event \<Rightarrow> bool" where
  "is_exchange Solicit = True"
| "is_exchange (Renew q) = True"
| "is_exchange _ = False"

fun slept_before_exchange :: "event list \<Rightarrow> (duration \<times> event) option" where
  "slept_before_exchange [] = None"
| "slept_before_exchange (e # es) =
     (if is_exchange e then Some (0, e)
      else (case slept_before_exchange es of
              None \<Rightarrow> None
            | Some (d, c) \<Rightarrow> Some ((case e of Sleep x \<Rightarrow> x | _ \<Rightarrow> 0) + d, c)))"

section \<open>Example inputs\<close>

text \<open>Scan texts are written line by line; every line ends with a newline.\<close>

definition unlines :: "string list \<Rightarrow> string" where
  "unlines ls = concat (map (\<lambda>l. l @ [nl]) ls)"

definition home_twice :: string where
  "home_twice = unlines
     [''  Cell 01 - Address: 00:11:22:33:44:55'',
      ''      ESSID:'' @ [dq] @ ''Home'' @ [dq],
      ''      Encryption key:off'',
      ''  Cell 02 - Address: 66:77:88:99:AA:BB'',
      ''      ESSID:'' @ [dq] @ ''Home'' @ [dq],
      ''      Encryption key:on'',
      ''      IE: IEEE 802.11i/WPA2 Version 1'',
      ''          Authentication Suites (1) : PSK'']"

definition legacy_then_wpa2 :: string where
  "legacy_then_wpa2 = unlines
     [''IE: IEEE 802.11i/WPA2 Version 1'',
      ''    Authentication Suites (1) : PSK'',
      ''  Cell 01'',
      ''      ESSID:'' @ [dq] @ ''Legacy'' @ [dq],
      ''      Encryption key:on'',
      ''      IE: WPA Version 1'',
      ''  Cell 02'',
      ''      ESSID:'' @ [dq] @ ''New'' @ [dq],
      ''      Encryption key:on'',
      ''      IE: IEEE 802.11i/WPA2 Version 1'',
      ''          Authentication Suites (1) : PSK'']"

definition open_with_marker :: string where
  "open_with_marker = unlines
     [''  Cell 01'',
      ''      ESSID:'' @ [dq] @ ''Guest'' @ [dq],
      ''      Encryption key:off'',
      ''      IE: IEEE 802.11i/WPA2 Version 1'',
      ''  Cell 02'',
      ''      ESSID:'' @ [dq] @ ''Corp'' @ [dq],
      ''      Encryption key:on'',
      ''      IE: IEEE 802.11i/WPA2 Version 1'',
      ''          Authentication Suites (1) : 802.1x'']"

text \<open>
  Collaborators for the runs of \<^verbatim>\<open>dhclient4\<close>: a \<^verbatim>\<open>HandlePacket\<close> that always
  succeeds, one that always fails, a packet with a lease of one hour and a packet with an
  infinite lease. \<open>events_of\<close> reads the events of the inner loop.
\<close>

definition handle_ok :: "packet \<Rightarrow> string option" where
  "handle_ok p = None"

definition hour_lease :: packet where
  "hour_lease = \<lparr>xid = 1, Leases = [\<lparr>ValidLifetime = 3600 * second\<rparr>]\<rparr>"

definition infinite_lease :: packet where
  "infinite_lease = \<lparr>xid = 2, Leases = [\<lparr>ValidLifetime = 0\<rparr>]\<rparr>"

definition handle_fails :: "packet \<Rightarrow> string option" where
  "handle_fails p = Some ''no such device''"

fun events_of :: "retry_result \<Rightarrow> event list" where
  "events_of (Left n p rest es) = es"
| "events_of (Blocked es) = es"

text \<open>A key derivation that always fails, for runs of \<^verbatim>\<open>generateConfig\<close>.\<close>

definition run_unavailable :: "string \<Rightarrow> string \<Rightarrow> string + string" where
  "run_unavailable essid pass = Inl ''unavailable''"

section \<open>Properties of the scan parser\<close>

lemma assemble_done:
  "\<not> i < length cells \<Longrightarrow> assemble raw cells essids encs i known res = Inr res"
  by (subst assemble.simps) simp

lemma assemble_step:
  assumes "i < length cells"
    and "assemble raw cells essids encs i known res = Inr out"
  shows "\<exists>e. essid_at essids i = Inr e \<and>
           ((known e = Some True \<and>
             assemble raw cells essids encs (Suc i) known res = Inr out) \<or>
            (known e \<noteq> Some True \<and>
             (\<exists>sec. security_at raw cells encs i = Inr sec \<and>
                assemble raw cells essids encs (Suc i) (known(e \<mapsto> True))
                  (res @ [\<lparr>Essid = e, AuthSuite = sec\<rparr>]) = Inr out)))"
  using assms by (subst (asm) assemble.simps) (auto split: sum.splits if_splits)

lemma assemble_extends:
  "assemble raw cells essids encs i known res = Inr out \<Longrightarrow> set res \<subseteq> set out"
proof (induction "length cells - i" arbitrary: i known res)
  case 0
  then show ?case by (simp add: assemble_done)
next
  case (Suc n)
  then have lt: "i < length cells" by simp
  from assemble_step [OF lt Suc.prems] Suc.hyps(1) [of "Suc i"] Suc.hyps(2)
  show ?case by fastforce
qed

lemma assemble_length:
  "assemble raw cells essids encs i known res = Inr out \<Longrightarrow>
   length out \<le> length res + (length cells - i)"
proof (induction "length cells - i" arbitrary: i known res)
  case 0
  then show ?case by (simp add: assemble_done)
next
  case (Suc n)
  then have lt: "i < length cells" by simp
  from Suc.hyps(2) have n: "n = length cells - Suc i" by simp
  from assemble_step [OF lt Suc.prems] obtain e where
    "(assemble raw cells essids encs (Suc i) known res = Inr out) \<or>
     (\<exists>sec. assemble raw cells essids encs (Suc i) (known(e \<mapsto> True))
                  (res @ [\<lparr>Essid = e, AuthSuite = sec\<rparr>]) = Inr out)"
    by blast
  then show ?case
  proof
    assume "assemble raw cells essids encs (Suc i) known res = Inr out"
    from Suc.hyps(1) [OF n this] lt show ?thesis by simp
  next
    assume "\<exists>sec. assemble raw cells essids encs (Suc i) (known(e \<mapsto> True))
                  (res @ [\<lparr>Essid = e, AuthSuite = sec\<rparr>]) = Inr out"
    then obtain sec where "assemble raw cells essids encs (Suc i) (known(e \<mapsto> True))
                  (res @ [\<lparr>Essid = e, AuthSuite = sec\<rparr>]) = Inr out" ..
    from Suc.hyps(1) [OF n this] lt show ?thesis by simp
  qed
qed

lemma assemble_distinct:
  "assemble raw cells essids encs i known res = Inr out \<Longrightarrow>
   \<forall>r \<in> set res. known (Essid r) = Some True \<Longrightarrow> distinct (map Essid res) \<Longrightarrow>
   distinct (map Essid out)"
proof (induction "length cells - i" arbitrary: i known res)
  case 0
  then show ?case by (simp add: assemble_done)
next
  case (Suc n)
  then have lt: "i < length cells" by simp
  from Suc.hyps(2) have n: "n = length cells - Suc i" by simp
  from assemble_step [OF lt Suc.prems(1)] obtain e where
    e: "(known e = Some True \<and> assemble raw cells essids encs (Suc i) known res = Inr out) \<or>
     (known e \<noteq> Some True \<and> (\<exists>sec. assemble raw cells essids encs (Suc i) (known(e \<mapsto> True))
                  (res @ [\<lparr>Essid = e, AuthSuite = sec\<rparr>]) = Inr out))"
    by blast
  then show ?case
  proof
    assume "known e = Some True \<and> assemble raw cells essids encs (Suc i) known res = Inr out"
    then show ?thesis using Suc.hyps(1) [OF n _ Suc.prems(2,3)] by blast
  next
    assume a: "known e \<noteq> Some True \<and> (\<exists>sec. assemble raw cells essids encs (Suc i) (known(e \<mapsto> True))
                  (res @ [\<lparr>Essid = e, AuthSuite = sec\<rparr>]) = Inr out)"
    then obtain sec where s: "assemble raw cells essids encs (Suc i) (known(e \<mapsto> True))
                  (res @ [\<lparr>Essid = e, AuthSuite = sec\<rparr>]) = Inr out" by blast
    from a Suc.prems(2) have fresh: "e \<notin> Essid ` set res" by auto
    have k: "\<forall>r \<in> set (res @ [\<lparr>Essid = e, AuthSuite = sec\<rparr>]). (known(e \<mapsto> True)) (Essid r) = Some True"
      using Suc.prems(2) by auto
    have d: "distinct (map Essid (res @ [\<lparr>Essid = e, AuthSuite = sec\<rparr>]))"
      using Suc.prems(3) fresh by simp
    from Suc.hyps(1) [OF n s k d] show ?thesis .
  qed
qed

text \<open>Where a record of the result comes from.\<close>

lemma assemble_origin:
  "assemble raw cells essids encs i known res = Inr out \<Longrightarrow> r \<in> set out \<Longrightarrow>
   r \<in> set res \<or>
   (\<exists>j. i \<le> j \<and> j < length cells \<and> essid_at essids j = Inr (Essid r) \<and>
        known (Essid r) \<noteq> Some True \<and>
        (\<forall>k. i \<le> k \<and> k < j \<longrightarrow> essid_at essids k \<noteq> Inr (Essid r)) \<and>
        security_at raw cells encs j = Inr (AuthSuite r))"
proof (induction "length cells - i" arbitrary: i known res)
  case 0
  then show ?case by (simp add: assemble_done)
next
  case (Suc n)
  then have lt: "i < length cells" by simp
  from Suc.hyps(2) have n: "n = length cells - Suc i" by simp
  from assemble_step [OF lt Suc.prems(1)] obtain e where ei: "essid_at essids i = Inr e" and
    e: "(known e = Some True \<and> assemble raw cells essids encs (Suc i) known res = Inr out) \<or>
     (known e \<noteq> Some True \<and> (\<exists>sec. security_at raw cells encs i = Inr sec \<and>
         assemble raw cells essids encs (Suc i) (known(e \<mapsto> True))
                  (res @ [\<lparr>Essid = e, AuthSuite = sec\<rparr>]) = Inr out))"
    by blast
  from e show ?case
  proof
    assume a: "known e = Some True \<and> assemble raw cells essids encs (Suc i) known res = Inr out"
    from Suc.hyps(1) [OF n conjunct2 [OF a] Suc.prems(2)]
    show ?thesis
    proof
      assume "r \<in> set res" then show ?thesis ..
    next
      assume "\<exists>j. Suc i \<le> j \<and> j < length cells \<and> essid_at essids j = Inr (Essid r) \<and>
        known (Essid r) \<noteq> Some True \<and>
        (\<forall>k. Suc i \<le> k \<and> k < j \<longrightarrow> essid_at essids k \<noteq> Inr (Essid r)) \<and>
        security_at raw cells encs j = Inr (AuthSuite r)"
      then obtain j where j: "Suc i \<le> j" "j < length cells" "essid_at essids j = Inr (Essid r)"
        "known (Essid r) \<noteq> Some True"
        "\<forall>k. Suc i \<le> k \<and> k < j \<longrightarrow> essid_at essids k \<noteq> Inr (Essid r)"
        "security_at raw cells encs j = Inr (AuthSuite r)" by blast
      from a ei j(4) have "essid_at essids i \<noteq> Inr (Essid r)" by auto
      with j(5) have "\<forall>k. i \<le> k \<and> k < j \<longrightarrow> essid_at essids k \<noteq> Inr (Essid r)"
        by (metis Suc_leI le_neq_implies_less)
      with j show ?thesis by (intro disjI2 exI [of _ j]) simp
    qed
  next
    assume a: "known e \<noteq> Some True \<and> (\<exists>sec. security_at raw cells encs i = Inr sec \<and>
         assemble raw cells essids encs (Suc i) (known(e \<mapsto> True))
                  (res @ [\<lparr>Essid = e, AuthSuite = sec\<rparr>]) = Inr out)"
    then obtain sec where sec: "security_at raw cells encs i = Inr sec"
      and s: "assemble raw cells essids encs (Suc i) (known(e \<mapsto> True))
                  (res @ [\<lparr>Essid = e, AuthSuite = sec\<rparr>]) = Inr out" by blast
    from Suc.hyps(1) [OF n s Suc.prems(2)]
    show ?thesis
    proof
      assume "r \<in> set (res @ [\<lparr>Essid = e, AuthSuite = sec\<rparr>])"
      then consider "r \<in> set res" | "r = \<lparr>Essid = e, AuthSuite = sec\<rparr>" by auto
      then show ?thesis
      proof cases
        case 1 then show ?thesis ..
      next
        case 2
        with a ei sec lt show ?thesis by (intro disjI2 exI [of _ i]) auto
      qed
    next
      assume "\<exists>j. Suc i \<le> j \<and> j < length cells \<and> essid_at essids j = Inr (Essid r) \<and>
        (known(e \<mapsto> True)) (Essid r) \<noteq> Some True \<and>
        (\<forall>k. Suc i \<le> k \<and> k < j \<longrightarrow> essid_at essids k \<noteq> Inr (Essid r)) \<and>
        security_at raw cells encs j = Inr (AuthSuite r)"
      then obtain j where j: "Suc i \<le> j" "j < length cells" "essid_at essids j = Inr (Essid r)"
        "(known(e \<mapsto> True)) (Essid r) \<noteq> Some True"
        "\<forall>k. Suc i \<le> k \<and> k < j \<longrightarrow> essid_at essids k \<noteq> Inr (Essid r)"
        "security_at raw cells encs j = Inr (AuthSuite r)" by blast
      from j(4) have ne: "Essid r \<noteq> e" and kn: "known (Essid r) \<noteq> Some True"
        by (auto split: if_splits)
      from ne ei have "essid_at essids i \<noteq> Inr (Essid r)" by auto
      with j(5) have "\<forall>k. i \<le> k \<and> k < j \<longrightarrow> essid_at essids k \<noteq> Inr (Essid r)"
        by (metis Suc_leI le_neq_implies_less)
      with j kn show ?thesis by (intro disjI2 exI [of _ j]) simp
    qed
  qed
qed

text \<open>Every cell of the text is represented in the result.\<close>

lemma assemble_covers:
  "assemble raw cells essids encs i known res = Inr out \<Longrightarrow> i \<le> j \<Longrightarrow> j < length cells \<Longrightarrow>
   \<exists>e. essid_at essids j = Inr e \<and> (known e = Some True \<or> (\<exists>r \<in> set out. Essid r = e))"
proof (induction "length cells - i" arbitrary: i known res)
  case 0
  then show ?case by simp
next
  case (Suc n)
  then have lt: "i < length cells" by simp
  from Suc.hyps(2) have n: "n = length cells - Suc i" by simp
  from assemble_step [OF lt Suc.prems(1)] obtain e where ei: "essid_at essids i = Inr e" and
    e: "(known e = Some True \<and> assemble raw cells essids encs (Suc i) known res = Inr out) \<or>
     (known e \<noteq> Some True \<and> (\<exists>sec. security_at raw cells encs i = Inr sec \<and>
         assemble raw cells essids encs (Suc i) (known(e \<mapsto> True))
                  (res @ [\<lparr>Essid = e, AuthSuite = sec\<rparr>]) = Inr out))"
    by blast
  from e show ?case
  proof
    assume a: "known e = Some True \<and> assemble raw cells essids encs (Suc i) known res = Inr out"
    show ?thesis
    proof (cases "j = i")
      case True
      with ei a show ?thesis by simp
    next
      case False
      with Suc.prems(2) have "Suc i \<le> j" by simp
      from Suc.hyps(1) [OF n conjunct2 [OF a] this Suc.prems(3)] show ?thesis .
    qed
  next
    assume a: "known e \<noteq> Some True \<and> (\<exists>sec. security_at raw cells encs i = Inr sec \<and>
         assemble raw cells essids encs (Suc i) (known(e \<mapsto> True))
                  (res @ [\<lparr>Essid = e, AuthSuite = sec\<rparr>]) = Inr out)"
    then obtain sec where
      s: "assemble raw cells essids encs (Suc i) (known(e \<mapsto> True))
                  (res @ [\<lparr>Essid = e, AuthSuite = sec\<rparr>]) = Inr out" by blast
    from assemble_extends [OF s] have mem: "\<lparr>Essid = e, AuthSuite = sec\<rparr> \<in> set out" by simp
    show ?thesis
    proof (cases "j = i")
      case True
      with ei mem show ?thesis by force
    next
      case False
      with Suc.prems(2) have "Suc i \<le> j" by simp
      from Suc.hyps(1) [OF n s this Suc.prems(3)] obtain e' where
        e': "essid_at essids j = Inr e'"
          "(known(e \<mapsto> True)) e' = Some True \<or> (\<exists>r \<in> set out. Essid r = e')" by blast
      show ?thesis
      proof (cases "e' = e")
        case True
        with e'(1) mem show ?thesis by force
      next
        case False
        with e' show ?thesis by simp
      qed
    qed
  qed
qed

lemma parse_first_block:
  assumes p: "parseIwlistOut raw = Inr res"
    and j: "j < length (FindAllIndex cellRE raw)"
    and e: "essid_at (FindAll essidRE raw) j = Inr e"
    and first: "\<forall>k<j. essid_at (FindAll essidRE raw) k \<noteq> Inr e"
  shows "\<exists>sec. security_at raw (FindAllIndex cellRE raw) (FindAll encKeyOptRE raw) j = Inr sec \<and>
           \<lparr>Essid = e, AuthSuite = sec\<rparr> \<in> set res \<and>
           (\<forall>r \<in> set res. Essid r = e \<longrightarrow> AuthSuite r = sec)"
proof -
  let ?cells = "FindAllIndex cellRE raw"
  let ?essids = "FindAll essidRE raw"
  let ?encs = "FindAll encKeyOptRE raw"
  from j have "?cells \<noteq> []" by auto
  with p have a: "assemble raw ?cells ?essids ?encs 0 Map.empty [] = Inr res"
    by (simp add: parseIwlistOut_def Let_def)
  have orig: "security_at raw ?cells ?encs j = Inr (AuthSuite r)"
    if r: "r \<in> set res" and re: "Essid r = e" for r
  proof -
    from assemble_origin [OF a r] obtain j' where j': "j' < length ?cells"
      "essid_at ?essids j' = Inr (Essid r)"
      "\<forall>k. k < j' \<longrightarrow> essid_at ?essids k \<noteq> Inr (Essid r)"
      "security_at raw ?cells ?encs j' = Inr (AuthSuite r)" by auto
    have "j' = j"
    proof (rule ccontr)
      assume "j' \<noteq> j"
      then consider "j' < j" | "j < j'" by linarith
      then show False
      proof cases
        case 1 with first j'(2) re show False by simp
      next
        case 2 with j'(3) e re show False by simp
      qed
    qed
    with j'(4) show ?thesis by simp
  qed
  from assemble_covers [OF a _ j, of] e obtain r where r: "r \<in> set res" "Essid r = e"
    by auto
  have "r = \<lparr>Essid = e, AuthSuite = AuthSuite r\<rparr>" using r(2) by simp
  with r(1) have "\<lparr>Essid = e, AuthSuite = AuthSuite r\<rparr> \<in> set res" by simp
  moreover have "AuthSuite r' = AuthSuite r" if "r' \<in> set res" "Essid r' = e" for r'
    using orig [OF that] orig [OF r] by simp
  ultimately show ?thesis using orig [OF r] by (intro exI [of _ "AuthSuite r"]) simp
qed

lemma parse_unique_first:
  assumes p: "parseIwlistOut raw = Inr res"
  shows "distinct (map Essid res) \<and>
         length res \<le> length (FindAllIndex cellRE raw) \<and>
         (\<forall>r \<in> set res. \<exists>j < length (FindAllIndex cellRE raw).
            essid_at (FindAll essidRE raw) j = Inr (Essid r) \<and>
            (\<forall>k<j. essid_at (FindAll essidRE raw) k \<noteq> Inr (Essid r)) \<and>
            security_at raw (FindAllIndex cellRE raw) (FindAll encKeyOptRE raw) j =
              Inr (AuthSuite r)) \<and>
         (\<forall>j < length (FindAllIndex cellRE raw). \<exists>r \<in> set res.
            essid_at (FindAll essidRE raw) j = Inr (Essid r))"
proof (cases "FindAllIndex cellRE raw = []")
  case True
  with p show ?thesis by (simp add: parseIwlistOut_def Let_def)
next
  case False
  let ?cells = "FindAllIndex cellRE raw"
  let ?essids = "FindAll essidRE raw"
  let ?encs = "FindAll encKeyOptRE raw"
  from False p have a: "assemble raw ?cells ?essids ?encs 0 Map.empty [] = Inr res"
    by (simp add: parseIwlistOut_def Let_def)
  have 1: "distinct (map Essid res)" using assemble_distinct [OF a] by simp
  have 2: "length res \<le> length ?cells" using assemble_length [OF a] by simp
  have 3: "\<exists>j < length ?cells. essid_at ?essids j = Inr (Essid r) \<and>
            (\<forall>k<j. essid_at ?essids k \<noteq> Inr (Essid r)) \<and>
            security_at raw ?cells ?encs j = Inr (AuthSuite r)" if "r \<in> set res" for r
    using assemble_origin [OF a that] by auto
  have 4: "\<exists>r \<in> set res. essid_at ?essids j = Inr (Essid r)" if "j < length ?cells" for j
    using assemble_covers [OF a _ that] by auto
  from 1 2 3 4 show ?thesis by blast
qed

lemma essid_at_in_bounds:
  "i < length essids \<Longrightarrow> essid_at essids i \<noteq> Inl EssidsIndex"
  by (simp add: essid_at_def split_second_def split: sum.splits list.splits)

lemma essid_at_other: "essid_at essids i \<noteq> Inl EncKeyOptsIndex"
  by (simp add: essid_at_def split_second_def split: sum.splits list.splits)

lemma encKeyOpt_at_in_bounds:
  "i < length encs \<Longrightarrow> encKeyOpt_at encs i \<noteq> Inl EncKeyOptsIndex"
  by (simp add: encKeyOpt_at_def split_second_def split: sum.splits list.splits)

lemma encKeyOpt_at_other: "encKeyOpt_at encs i \<noteq> Inl EssidsIndex"
  by (simp add: encKeyOpt_at_def split_second_def split: sum.splits list.splits)

lemma authSuite_at_no_index:
  "authSuite_at raw cells i \<noteq> Inl EssidsIndex \<and> authSuite_at raw cells i \<noteq> Inl EncKeyOptsIndex"
  by (auto simp add: authSuite_at_def wpa2SearchArea_def split_second_def Let_def
      split: sum.splits list.splits option.splits if_splits)

lemma security_at_in_bounds:
  "i < length encs \<Longrightarrow>
   security_at raw cells encs i \<noteq> Inl EssidsIndex \<and>
   security_at raw cells encs i \<noteq> Inl EncKeyOptsIndex"
  using encKeyOpt_at_in_bounds [of i encs] encKeyOpt_at_other [of encs i]
    authSuite_at_no_index [of raw cells i]
  by (auto simp add: security_at_def split: sum.splits)

lemma assemble_in_bounds:
  assumes "length cells \<le> length essids" and "length cells \<le> length encs"
  shows "assemble raw cells essids encs i known res \<noteq> Inl EssidsIndex \<and>
         assemble raw cells essids encs i known res \<noteq> Inl EncKeyOptsIndex"
proof (induction "length cells - i" arbitrary: i known res)
  case 0
  then show ?case by (simp add: assemble_done)
next
  case (Suc n)
  then have lt: "i < length cells" and n: "n = length cells - Suc i" by simp_all
  from lt assms have b: "i < length essids" "i < length encs" by simp_all
  show ?case
    using essid_at_in_bounds [OF b(1)] essid_at_other [of essids i]
      security_at_in_bounds [OF b(2), of raw cells] Suc.hyps(1) [OF n] lt
    by (subst (1 2) assemble.simps) (auto split: sum.splits)
qed

text \<open>
  Claim C9. When the text has at least as many ESSID lines and at least as many
  encryption lines as it has cells, every index the parser uses into these two
  sequences is in range: the parser does not panic on \<^verbatim>\<open>essids[i]\<close> or on
  \<^verbatim>\<open>encKeyOpts[i]\<close>.
\<close>
theorem aligned_counts_index_in_bounds:
  assumes "length (FindAllIndex cellRE raw) \<le> length (FindAll essidRE raw)"
    and "length (FindAllIndex cellRE raw) \<le> length (FindAll encKeyOptRE raw)"
  shows "parseIwlistOut raw \<noteq> Inl EssidsIndex \<and>
         parseIwlistOut raw \<noteq> Inl EncKeyOptsIndex \<and>
         (\<forall>i < length (FindAllIndex cellRE raw).
            essid_at (FindAll essidRE raw) i \<noteq> Inl EssidsIndex \<and>
            encKeyOpt_at (FindAll encKeyOptRE raw) i \<noteq> Inl EncKeyOptsIndex)"
proof -
  have "parseIwlistOut raw \<noteq> Inl EssidsIndex \<and> parseIwlistOut raw \<noteq> Inl EncKeyOptsIndex"
    using assemble_in_bounds [OF assms] by (simp add: parseIwlistOut_def Let_def)
  moreover have "essid_at (FindAll essidRE raw) i \<noteq> Inl EssidsIndex \<and>
      encKeyOpt_at (FindAll encKeyOptRE raw) i \<noteq> Inl EncKeyOptsIndex"
    if "i < length (FindAllIndex cellRE raw)" for i
    using that assms essid_at_in_bounds [of i] encKeyOpt_at_in_bounds [of i] by simp
  ultimately show ?thesis by blast
qed

theorem aligned_counts_index_in_bounds_witness:
  "length (FindAllIndex cellRE home_twice) \<le> length (FindAll essidRE home_twice) \<and>
   length (FindAllIndex cellRE home_twice) \<le> length (FindAll encKeyOptRE home_twice) \<and>
   parseIwlistOut home_twice \<noteq> Inl EssidsIndex \<and>
   parseIwlistOut home_twice \<noteq> Inl EncKeyOptsIndex"
proof -
  have 1: "length (FindAllIndex cellRE home_twice) \<le> length (FindAll essidRE home_twice)"
    by code_simp
  have 2: "length (FindAllIndex cellRE home_twice) \<le> length (FindAll encKeyOptRE home_twice)"
    by code_simp
  from aligned_counts_index_in_bounds [OF 1 2] 1 2 show ?thesis by blast
qed

text \<open>
  Claim C2. The result of the parser has at most one record for each ESSID and no more
  records than cells; every record comes from the first cell that carries its ESSID,
  with the security of that cell, and every cell's ESSID has a record. For the text with
  two cells named Home, the first with encryption off and the second with encryption
  on, WPA2 and PSK, the result is the single record Home without encryption.
\<close>
theorem first_block_of_each_essid_wins:
  "(parseIwlistOut raw = Inr res \<longrightarrow>
      distinct (map Essid res) \<and>
      length res \<le> length (FindAllIndex cellRE raw) \<and>
      (\<forall>r \<in> set res. \<exists>j < length (FindAllIndex cellRE raw).
         essid_at (FindAll essidRE raw) j = Inr (Essid r) \<and>
         (\<forall>k<j. essid_at (FindAll essidRE raw) k \<noteq> Inr (Essid r)) \<and>
         security_at raw (FindAllIndex cellRE raw) (FindAll encKeyOptRE raw) j =
           Inr (AuthSuite r)) \<and>
      (\<forall>j < length (FindAllIndex cellRE raw). \<exists>r \<in> set res.
         essid_at (FindAll essidRE raw) j = Inr (Essid r))) \<and>
   parseIwlistOut home_twice = Inr [\<lparr>Essid = ''Home'', AuthSuite = NoEnc\<rparr>]"
proof -
  have "parseIwlistOut home_twice = Inr [\<lparr>Essid = ''Home'', AuthSuite = NoEnc\<rparr>]"
    by code_simp
  with parse_unique_first [of raw res] show ?thesis by blast
qed

theorem first_block_of_each_essid_wins_witness:
  "parseIwlistOut home_twice = Inr [\<lparr>Essid = ''Home'', AuthSuite = NoEnc\<rparr>] \<and>
   distinct (map Essid [\<lparr>Essid = ''Home'', AuthSuite = NoEnc\<rparr>]) \<and>
   (\<exists>j < length (FindAllIndex cellRE home_twice).
       essid_at (FindAll essidRE home_twice) j = Inr ''Home'' \<and>
       (\<forall>k<j. essid_at (FindAll essidRE home_twice) k \<noteq> Inr ''Home'') \<and>
       security_at home_twice (FindAllIndex cellRE home_twice)
         (FindAll encKeyOptRE home_twice) j = Inr NoEnc)"
  using first_block_of_each_essid_wins
    [of home_twice "[\<lparr>Essid = ''Home'', AuthSuite = NoEnc\<rparr>]"]
  by simp

text \<open>
  Claim C6. A cell whose encryption line says off, and which is the first cell with its
  ESSID, gives a record without encryption, whatever else the text contains: the
  authentication suites are not looked at for it. As in the source, the ESSID line and
  the encryption line of cell \<open>j\<close> are the lines with index \<open>j\<close> among all such
  lines of the text.
\<close>
theorem encryption_off_is_open:
  assumes "parseIwlistOut raw = Inr res"
    and "j < length (FindAllIndex cellRE raw)"
    and "essid_at (FindAll essidRE raw) j = Inr e"
    and "\<forall>k<j. essid_at (FindAll essidRE raw) k \<noteq> Inr e"
    and "encKeyOpt_at (FindAll encKeyOptRE raw) j = Inr ''off''"
  shows "security_at raw (FindAllIndex cellRE raw) (FindAll encKeyOptRE raw) j = Inr NoEnc \<and>
         \<lparr>Essid = e, AuthSuite = NoEnc\<rparr> \<in> set res \<and>
         (\<forall>r \<in> set res. Essid r = e \<longrightarrow> AuthSuite r = NoEnc)"
proof -
  have "security_at raw (FindAllIndex cellRE raw) (FindAll encKeyOptRE raw) j = Inr NoEnc"
    using assms(5) by (simp add: security_at_def)
  with parse_first_block [OF assms(1-4)] show ?thesis by auto
qed

theorem encryption_off_is_open_witness:
  "parseIwlistOut open_with_marker =
     Inr [\<lparr>Essid = ''Guest'', AuthSuite = NoEnc\<rparr>, \<lparr>Essid = ''Corp'', AuthSuite = WpaEap\<rparr>] \<and>
   encKeyOpt_at (FindAll encKeyOptRE open_with_marker) 0 = Inr ''off'' \<and>
   FindIndex wpa2RE open_with_marker \<noteq> None \<and>
   authSuite_at open_with_marker (FindAllIndex cellRE open_with_marker) 0 = Inl SplitIndex \<and>
   security_at open_with_marker (FindAllIndex cellRE open_with_marker)
     (FindAll encKeyOptRE open_with_marker) 0 = Inr NoEnc \<and>
   \<lparr>Essid = ''Guest'', AuthSuite = NoEnc\<rparr> \<in>
     set [\<lparr>Essid = ''Guest'', AuthSuite = NoEnc\<rparr>, \<lparr>Essid = ''Corp'', AuthSuite = WpaEap\<rparr>]"
proof -
  have 1: "parseIwlistOut open_with_marker =
     Inr [\<lparr>Essid = ''Guest'', AuthSuite = NoEnc\<rparr>, \<lparr>Essid = ''Corp'', AuthSuite = WpaEap\<rparr>]"
    by code_simp
  have 2: "0 < length (FindAllIndex cellRE open_with_marker)" by code_simp
  have 3: "essid_at (FindAll essidRE open_with_marker) 0 = Inr ''Guest''" by code_simp
  have 4: "\<forall>k<0. essid_at (FindAll essidRE open_with_marker) k \<noteq> Inr ''Guest''" by simp
  have 5: "encKeyOpt_at (FindAll encKeyOptRE open_with_marker) 0 = Inr ''off''" by code_simp
  have 6: "FindIndex wpa2RE open_with_marker \<noteq> None" by code_simp
  have 7: "authSuite_at open_with_marker (FindAllIndex cellRE open_with_marker) 0 = Inl SplitIndex"
    by code_simp
  from encryption_off_is_open [OF 1 2 3 4 5] 1 5 6 7 show ?thesis by blast
qed

text \<open>
  Claim C3. For a cell whose encryption line says on, and which is the first cell with
  its ESSID, the WPA2 marker is searched only between the start of this cell and the
  start of the next cell (the end of the text for the last cell); when it is not found
  there the record is not supported, whatever the rest of the text contains. The
  encryption line of cell \<open>j\<close> is the one with index \<open>j\<close>, as in the source.
\<close>
theorem encryption_on_without_wpa2_in_window_is_unsupported:
  assumes "parseIwlistOut raw = Inr res"
    and "j < length (FindAllIndex cellRE raw)"
    and "essid_at (FindAll essidRE raw) j = Inr e"
    and "\<forall>k<j. essid_at (FindAll essidRE raw) k \<noteq> Inr e"
    and "encKeyOpt_at (FindAll encKeyOptRE raw) j = Inr ''on''"
    and "FindIndex wpa2RE
           (slice raw (fst (FindAllIndex cellRE raw ! j))
              (if j \<noteq> length (FindAllIndex cellRE raw) - 1
               then fst (FindAllIndex cellRE raw ! (j + 1))
               else length raw)) = None"
  shows "\<lparr>Essid = e, AuthSuite = NotSupportedProto\<rparr> \<in> set res \<and>
         (\<forall>r \<in> set res. Essid r = e \<longrightarrow> AuthSuite r = NotSupportedProto)"
proof -
  let ?cells = "FindAllIndex cellRE raw"
  from parse_first_block [OF assms(1-4)] obtain sec where
    sec: "security_at raw ?cells (FindAll encKeyOptRE raw) j = Inr sec"
      "\<lparr>Essid = e, AuthSuite = sec\<rparr> \<in> set res"
      "\<forall>r \<in> set res. Essid r = e \<longrightarrow> AuthSuite r = sec" by blast
  from sec(1) assms(5) have a: "authSuite_at raw ?cells j = Inr sec"
    by (simp add: security_at_def)
  then obtain area where area: "wpa2SearchArea raw ?cells j = Inr area"
    by (auto simp add: authSuite_at_def split: sum.splits)
  then have "area = slice raw (fst (?cells ! j))
              (if j \<noteq> length ?cells - 1 then fst (?cells ! (j + 1)) else length raw)"
    by (simp add: wpa2SearchArea_def Let_def split: if_splits)
  with assms(6) have "FindIndex wpa2RE area = None" by simp
  with a area have "sec = NotSupportedProto" by (simp add: authSuite_at_def)
  with sec show ?thesis by simp
qed

theorem encryption_on_without_wpa2_in_window_is_unsupported_witness:
  "parseIwlistOut legacy_then_wpa2 =
     Inr [\<lparr>Essid = ''Legacy'', AuthSuite = NotSupportedProto\<rparr>,
          \<lparr>Essid = ''New'', AuthSuite = WpaPsk\<rparr>] \<and>
   encKeyOpt_at (FindAll encKeyOptRE legacy_then_wpa2) 0 = Inr ''on'' \<and>
   FindAllIndex cellRE legacy_then_wpa2 = [(68, 74), (147, 153)] \<and>
   FindAllIndex wpa2RE legacy_then_wpa2 = [(0, 31), (199, 236)] \<and>
   FindIndex wpa2RE (slice legacy_then_wpa2 68 147) = None \<and>
   \<lparr>Essid = ''Legacy'', AuthSuite = NotSupportedProto\<rparr> \<in>
     set [\<lparr>Essid = ''Legacy'', AuthSuite = NotSupportedProto\<rparr>,
          \<lparr>Essid = ''New'', AuthSuite = WpaPsk\<rparr>]"
proof -
  have 1: "parseIwlistOut legacy_then_wpa2 =
     Inr [\<lparr>Essid = ''Legacy'', AuthSuite = NotSupportedProto\<rparr>,
          \<lparr>Essid = ''New'', AuthSuite = WpaPsk\<rparr>]"
    by code_simp
  have c: "FindAllIndex cellRE legacy_then_wpa2 = [(68, 74), (147, 153)]" by code_simp
  have w: "FindAllIndex wpa2RE legacy_then_wpa2 = [(0, 31), (199, 236)]" by code_simp
  have 2: "0 < length (FindAllIndex cellRE legacy_then_wpa2)" by (simp add: c)
  have 3: "essid_at (FindAll essidRE legacy_then_wpa2) 0 = Inr ''Legacy''" by code_simp
  have 4: "\<forall>k<0. essid_at (FindAll essidRE legacy_then_wpa2) k \<noteq> Inr ''Legacy''" by simp
  have 5: "encKeyOpt_at (FindAll encKeyOptRE legacy_then_wpa2) 0 = Inr ''on''" by code_simp
  have 6: "FindIndex wpa2RE (slice legacy_then_wpa2 68 147) = None" by code_simp
  have 7: "FindIndex wpa2RE
           (slice legacy_then_wpa2 (fst (FindAllIndex cellRE legacy_then_wpa2 ! 0))
              (if 0 \<noteq> length (FindAllIndex cellRE legacy_then_wpa2) - 1
               then fst (FindAllIndex cellRE legacy_then_wpa2 ! (0 + 1))
               else length legacy_then_wpa2)) = None"
    using 6 by (simp add: c)
  from encryption_on_without_wpa2_in_window_is_unsupported [OF 1 2 3 4 5 7]
  have 8: "\<lparr>Essid = ''Legacy'', AuthSuite = NotSupportedProto\<rparr> \<in>
     set [\<lparr>Essid = ''Legacy'', AuthSuite = NotSupportedProto\<rparr>,
          \<lparr>Essid = ''New'', AuthSuite = WpaPsk\<rparr>]" by (rule conjunct1)
  from 1 5 c w 6 8 show ?thesis by (intro conjI)
qed

section \<open>Properties of the profile generator\<close>

text \<open>A format is copied up to its next verb, and an operand is copied as it is.\<close>

lemma Sprintf_verb:
  "CHR ''%'' \<notin> set lit \<Longrightarrow>
   Sprintf (lit @ CHR ''%'' # CHR ''s'' # rest) (a # as) = lit @ a @ Sprintf rest as"
proof (induction lit)
  case Nil
  then show ?case by simp
next
  case (Cons c lit)
  then show ?case by (cases lit) auto
qed

lemma Sprintf_plain: "CHR ''%'' \<notin> set lit \<Longrightarrow> Sprintf lit [] = lit"
proof (induction lit)
  case Nil
  then show ?case by simp
next
  case (Cons c lit)
  then show ?case by (cases lit) auto
qed

text \<open>
  Claim C7. With three strings, SSID, passphrase and identity, the profile is the
  enterprise template with the first string as \<^verbatim>\<open>ssid\<close>, the third as
  \<^verbatim>\<open>identity\<close> and the second, as it is, as \<^verbatim>\<open>password\<close>; so for Office,
  secret123 and alice.
\<close>

theorem generateConfig_three_strings_give_enterprise_profile:
  "generateConfig run [ssid, pass, ident] =
     Inr (''network={'' @ [nl, tab, tab] @ ''ssid='' @ [dq] @ ssid @ [dq] @
          [nl, tab, tab] @ ''key_mgmt=WPA-EAP'' @
          [nl, tab, tab] @ ''identity='' @ [dq] @ ident @ [dq] @
          [nl, tab, tab] @ ''password='' @ [dq] @ pass @ [dq] @
          [nl, tab] @ ''}'') \<and>
   generateConfig run [''Office'', ''secret123'', ''alice''] =
     Inr (''network={'' @ [nl, tab, tab] @ ''ssid='' @ [dq] @ ''Office'' @ [dq] @
          [nl, tab, tab] @ ''key_mgmt=WPA-EAP'' @
          [nl, tab, tab] @ ''identity='' @ [dq] @ ''alice'' @ [dq] @
          [nl, tab, tab] @ ''password='' @ [dq] @ ''secret123'' @ [dq] @
          [nl, tab] @ ''}'')"
proof -
  let ?p1 = "''network={'' @ [nl, tab, tab] @ ''ssid='' @ [dq]"
  let ?p2 = "[dq] @ [nl, tab, tab] @ ''key_mgmt=WPA-EAP'' @ [nl, tab, tab] @ ''identity='' @ [dq]"
  let ?p3 = "[dq] @ [nl, tab, tab] @ ''password='' @ [dq]"
  let ?p4 = "[dq] @ [nl, tab] @ ''}''"
  have eap: "eap = ?p1 @ CHR ''%'' # CHR ''s'' # ?p2 @ CHR ''%'' # CHR ''s'' # ?p3 @
               CHR ''%'' # CHR ''s'' # ?p4"
    by (simp add: eap_def)
  have fill: "Sprintf eap [x, y, z] = ?p1 @ x @ ?p2 @ y @ ?p3 @ z @ ?p4" for x y z
  proof -
    have "Sprintf eap [x, y, z] =
        ?p1 @ x @ Sprintf (?p2 @ CHR ''%'' # CHR ''s'' # ?p3 @ CHR ''%'' # CHR ''s'' # ?p4) [y, z]"
      unfolding eap by (rule Sprintf_verb) simp
    also have "Sprintf (?p2 @ CHR ''%'' # CHR ''s'' # ?p3 @ CHR ''%'' # CHR ''s'' # ?p4) [y, z] =
        ?p2 @ y @ Sprintf (?p3 @ CHR ''%'' # CHR ''s'' # ?p4) [z]"
      by (rule Sprintf_verb) simp
    also have "Sprintf (?p3 @ CHR ''%'' # CHR ''s'' # ?p4) [z] = ?p3 @ z @ Sprintf ?p4 []"
      by (rule Sprintf_verb) simp
    also have "Sprintf ?p4 [] = ?p4"
      by (rule Sprintf_plain) simp
    finally show ?thesis .
  qed
  have "generateConfig run [s, p, i] = Inr (Sprintf eap [s, i, p])" for s p i
    by (simp add: generateConfig_def)
  with fill show ?thesis by simp
qed

text \<open>
  Claim C8. With no string, or with more than three, \<^verbatim>\<open>generateConfig\<close> fails with
  the error that it needs 1, 2, or 3 arguments, and returns no profile.
\<close>

theorem generateConfig_rejects_other_counts:
  assumes "length a = 0 \<or> 3 < length a"
  shows "generateConfig run a = Inl ''generateConfig needs 1, 2, or 3 args'' \<and>
         (\<forall>conf. generateConfig run a \<noteq> Inr conf)"
  using assms by (auto simp add: generateConfig_def)

theorem generateConfig_rejects_other_counts_witness:
  "generateConfig run_unavailable [] = Inl ''generateConfig needs 1, 2, or 3 args'' \<and>
   generateConfig run_unavailable [''Office'', ''secret123'', ''alice'', ''extra''] =
     Inl ''generateConfig needs 1, 2, or 3 args''"
  using generateConfig_rejects_other_counts [of "[]" run_unavailable]
    generateConfig_rejects_other_counts
      [of "[''Office'', ''secret123'', ''alice'', ''extra'']" run_unavailable]
  by simp

section \<open>Properties of the lease loop\<close>

lemma events_of_prepend: "events_of (prepend evs r) = evs @ events_of r"
  by (cases r) simp_all

lemma sint_succ:
  fixes i :: go_int
  assumes "0 \<le> sint i" and "sint i < 2 ^ 63 - 1"
  shows "sint (i + 1) = sint i + 1"
proof -
  have "sint (i + 1) = signed_take_bit (LENGTH(64) - 1) (sint i + sint (1 :: go_int))"
    by (rule sint_word_ariths)
  also have "\<dots> = signed_take_bit 63 (sint i + 1)" by simp
  also have "\<dots> = sint i + 1"
    using assms by (intro signed_take_bit_int_eq_self) simp_all
  finally show ?thesis .
qed

lemma exchange_events:
  "HandlePacket q \<notin> set (exchange n pk i) \<and> (n \<longrightarrow> Renew q \<notin> set (exchange n pk i))"
  by (simp add: exchange_def)

lemma exchange_first: "exchange n pk 0 = [if n then Solicit else Renew pk]"
  by (simp add: exchange_def)

lemma retry_loop_no_handle:
  "HandlePacket q \<notin> set (events_of (retry_loop n pk i script))"
proof (induction script arbitrary: pk i)
  case Nil
  then show ?case by (simp add: exchange_def)
next
  case (Cons r script)
  obtain p err where r: "r = (p, err)" by (cases r)
  show ?case using Cons.IH [of p "i + 1"]
    by (cases err) (simp_all add: r events_of_prepend exchange_def)
qed

lemma retry_loop_head:
  "sint i > -1 \<Longrightarrow> \<exists>tl. events_of (retry_loop n pk i script) = exchange n pk i @ tl"
proof (cases script)
  case Nil
  assume "sint i > -1"
  with Nil show ?thesis by simp
next
  case (Cons r rest)
  assume i: "sint i > -1"
  obtain p err where r: "r = (p, err)" by (cases r)
  show ?thesis using i by (cases err) (simp_all add: Cons r events_of_prepend)
qed

text \<open>Failed exchanges, fewer than the counter can count, then one that succeeds.\<close>

lemma retry_loop_fails_then_ok:
  assumes "\<forall>r \<in> set fails. snd r \<noteq> None"
    and "0 \<le> sint i" and "sint i + int (length fails) < 2 ^ 63"
  shows "\<exists>evs. retry_loop n pk i (fails @ (p, None) # rest) = Left False p rest evs \<and>
           (\<forall>q. HandlePacket q \<notin> set evs) \<and> (n \<longrightarrow> (\<forall>q. Renew q \<notin> set evs))"
  using assms
proof (induction fails arbitrary: pk i)
  case Nil
  then show ?case by (simp add: exchange_def)
next
  case (Cons r fails)
  obtain q e where r: "r = (q, Some e)" using Cons.prems(1) by (cases r) auto
  from Cons.prems have s: "sint (i + 1) = sint i + 1" by (intro sint_succ) simp_all
  from Cons.prems s have "\<exists>evs. retry_loop n q (i + 1) (fails @ (p, None) # rest) = Left False p rest evs \<and>
           (\<forall>q. HandlePacket q \<notin> set evs) \<and> (n \<longrightarrow> (\<forall>q. Renew q \<notin> set evs))"
    by (intro Cons.IH) simp_all
  then obtain evs where evs: "retry_loop n q (i + 1) (fails @ (p, None) # rest) = Left False p rest evs"
    "\<forall>q. HandlePacket q \<notin> set evs" "n \<longrightarrow> (\<forall>q. Renew q \<notin> set evs)" by blast
  from Cons.prems(2) have "sint i > -1" by simp
  with evs show ?case by (simp add: r exchange_def)
qed

lemma retry_loop_all_fail:
  assumes "\<forall>r \<in> set script. snd r \<noteq> None"
    and "0 \<le> sint i" and "sint i + int (length script) < 2 ^ 63"
  shows "\<exists>evs. retry_loop n pk i script = Blocked evs"
  using assms
proof (induction script arbitrary: pk i)
  case Nil
  then show ?case by simp
next
  case (Cons r script)
  obtain q e where r: "r = (q, Some e)" using Cons.prems(1) by (cases r) auto
  from Cons.prems have s: "sint (i + 1) = sint i + 1" by (intro sint_succ) simp_all
  from Cons.prems s have "\<exists>evs. retry_loop n q (i + 1) script = Blocked evs"
    by (intro Cons.IH) simp_all
  then obtain evs where "retry_loop n q (i + 1) script = Blocked evs" ..
  moreover from Cons.prems(2) have "sint i > -1" by simp
  ultimately show ?case by (simp add: r)
qed

text \<open>
  After \<open>2 ^ 63\<close> failed exchanges in a row \<^verbatim>\<open>i++\<close> has wrapped the counter around
  to the word \<open>2 ^ 63\<close>, which reads as a negative number: the condition
  \<^verbatim>\<open>i > -1\<close> fails and the inner loop is left without an exchange.
\<close>

lemma retry_loop_wrapped: "retry_loop n pk (2 ^ 63) script = Left n pk script []"
  by (cases script) auto

text \<open>One round of the outer loop.\<close>

lemma lease_loop_elim [consumes 1, case_names Waiting Failed NoLease Infinite Renewing]:
  assumes "lease_loop handle n pk script = (out, tr)"
  obtains
    evs where "retry_loop n pk 0 script = Blocked evs" "out = Waiting" "tr = LogStart # evs"
  | n' p' rest evs e where "retry_loop n pk 0 script = Left n' p' rest evs"
      "handle p' = Some e" "out = Returned (Some (ErrHandlePacket e))"
      "tr = LogStart # evs @ [HandlePacket p']"
  | n' p' rest evs where "retry_loop n pk 0 script = Left n' p' rest evs"
      "handle p' = None" "Leases p' = []" "out = Panicked"
      "tr = LogStart # evs @ [HandlePacket p']"
  | n' p' rest evs l ls where "retry_loop n pk 0 script = Left n' p' rest evs"
      "handle p' = None" "Leases p' = l # ls" "ValidLifetime l = 0" "out = Returned None"
      "tr = LogStart # evs @ [HandlePacket p', LogInfinite]"
  | n' p' rest evs l ls tr' where "retry_loop n pk 0 script = Left n' p' rest evs"
      "handle p' = None" "Leases p' = l # ls" "ValidLifetime l \<noteq> 0"
      "lease_loop handle n' p' rest = (out, tr')"
      "tr = LogStart # evs @ [HandlePacket p', Sleep (timeout - slop)] @ tr'"
      "length rest < length script"
proof (cases "retry_loop n pk 0 script")
  case (Blocked evs)
  with assms that(1) show ?thesis by (simp add: lease_loop.simps)
next
  case (Left n' p' rest evs)
  from retry_loop_consumes [OF Left] have len: "length rest < length script" by simp
  show ?thesis
  proof (cases "handle p'")
    case (Some e)
    with assms Left that(2) show ?thesis by (simp add: lease_loop.simps)
  next
    case None
    show ?thesis
    proof (cases "Leases p'")
      case Nil
      with assms Left None that(3) show ?thesis by (simp add: lease_loop.simps)
    next
      case (Cons l ls)
      show ?thesis
      proof (cases "ValidLifetime l = 0")
        case True
        with assms Left None Cons that(4) show ?thesis by (simp add: lease_loop.simps)
      next
        case False
        obtain o' tr' where r: "lease_loop handle n' p' rest = (o', tr')"
          by (cases "lease_loop handle n' p' rest")
        with assms Left None Cons False have "out = o'"
          "tr = LogStart # evs @ [HandlePacket p', Sleep (timeout - slop)] @ tr'"
          by (simp_all add: lease_loop.simps [of handle n pk script])
        with that(5) [OF Left None Cons False _ _ len] r show ?thesis by simp
      qed
    qed
  qed
qed

lemma lease_loop_head:
  assumes "lease_loop handle n pk script = (out, tr)"
  shows "\<exists>tl. tr = LogStart # (if n then Solicit else Renew pk) # tl"
proof -
  from retry_loop_head [of 0 n pk script] obtain tl where
    tl: "events_of (retry_loop n pk 0 script) = (if n then Solicit else Renew pk) # tl"
    by (auto simp add: exchange_first)
  from assms show ?thesis
    by (cases rule: lease_loop_elim) (use tl in auto)
qed

text \<open>How a run returns.\<close>

lemma lease_loop_returns:
  "lease_loop handle n pk script = (out, tr) \<Longrightarrow>
   (\<forall>err. out = Returned (Some err) \<longrightarrow>
      (\<exists>pre p e. tr = pre @ [HandlePacket p] \<and> handle p = Some e \<and> err = ErrHandlePacket e)) \<and>
   (out = Returned None \<longrightarrow>
      (\<exists>pre p l ls. tr = pre @ [HandlePacket p, LogInfinite] \<and> handle p = None \<and>
         Leases p = l # ls \<and> ValidLifetime l = 0))"
proof (induction "length script" arbitrary: n pk script tr rule: less_induct)
  case less
  from less.prems show ?case
  proof (cases rule: lease_loop_elim)
    case (Waiting evs)
    then show ?thesis by simp
  next
    case (Failed n' p' rest evs e)
    then show ?thesis by (auto intro: exI [of _ "LogStart # evs"])
  next
    case (NoLease n' p' rest evs)
    then show ?thesis by simp
  next
    case (Infinite n' p' rest evs l ls)
    then show ?thesis by (auto intro: exI [of _ "LogStart # evs"])
  next
    case (Renewing n' p' rest evs l ls tr')
    let ?pre = "LogStart # evs @ [HandlePacket p', Sleep (timeout - slop)]"
    from less.hyps [OF Renewing(7) Renewing(5)]
    have ih: "(\<forall>err. out = Returned (Some err) \<longrightarrow>
      (\<exists>pre p e. tr' = pre @ [HandlePacket p] \<and> handle p = Some e \<and> err = ErrHandlePacket e)) \<and>
     (out = Returned None \<longrightarrow>
      (\<exists>pre p l ls. tr' = pre @ [HandlePacket p, LogInfinite] \<and> handle p = None \<and>
         Leases p = l # ls \<and> ValidLifetime l = 0))" .
    have tr: "tr = ?pre @ tr'" using Renewing(6) by simp
    show ?thesis
    proof (intro conjI allI impI)
      fix err assume "out = Returned (Some err)"
      with ih obtain pre p e where "tr' = pre @ [HandlePacket p]" "handle p = Some e"
        "err = ErrHandlePacket e" by blast
      with tr have "tr = (?pre @ pre) @ [HandlePacket p] \<and> handle p = Some e \<and> err = ErrHandlePacket e"
        by simp
      then show "\<exists>pre p e. tr = pre @ [HandlePacket p] \<and> handle p = Some e \<and> err = ErrHandlePacket e"
        by blast
    next
      assume "out = Returned None"
      with ih obtain pre p l ls where "tr' = pre @ [HandlePacket p, LogInfinite]" "handle p = None"
         "Leases p = l # ls" "ValidLifetime l = 0" by blast
      with tr have "tr = (?pre @ pre) @ [HandlePacket p, LogInfinite] \<and> handle p = None \<and>
         Leases p = l # ls \<and> ValidLifetime l = 0" by simp
      then show "\<exists>pre p l ls. tr = pre @ [HandlePacket p, LogInfinite] \<and> handle p = None \<and>
         Leases p = l # ls \<and> ValidLifetime l = 0" by blast
    qed
  qed
qed

lemma split_at_first:
  assumes "xs @ a # ys = pre @ b # post" and "b \<notin> set xs"
  shows "(pre = xs \<and> a = b \<and> post = ys) \<or> (\<exists>mid. pre = xs @ a # mid \<and> ys = mid @ b # post)"
  using assms
proof (induction xs arbitrary: pre)
  case Nil
  then show ?case by (cases pre) auto
next
  case (Cons x xs)
  then show ?case by (cases pre) auto
qed

lemma handle_position:
  assumes "xs @ HandlePacket p' # ys = pre @ HandlePacket p # post"
    and "HandlePacket p \<notin> set xs"
  shows "(p' = p \<and> post = ys) \<or> (\<exists>mid. ys = mid @ HandlePacket p # post)"
  using split_at_first [OF assms] by auto

lemma lease_loop_after_handle:
  "lease_loop handle n pk script = (out, tr) \<Longrightarrow> tr = pre @ HandlePacket p # post \<Longrightarrow>
   handle p = None \<Longrightarrow> Leases p = l # ls \<Longrightarrow>
   (ValidLifetime l = 0 \<longrightarrow> out = Returned None \<and> post = [LogInfinite]) \<and>
   (ValidLifetime l \<noteq> 0 \<longrightarrow>
      (\<exists>c post'. post = Sleep (timeout - slop) # LogStart # c # post' \<and>
         (c = Solicit \<or> c = Renew p)))"
proof (induction "length script" arbitrary: n pk script tr pre rule: less_induct)
  case less
  have nh: "HandlePacket p \<notin> set (LogStart # events_of (retry_loop n pk 0 script))"
    using retry_loop_no_handle [of p n pk 0 script] by simp
  from less.prems(1) show ?case
  proof (cases rule: lease_loop_elim)
    case (Waiting evs)
    from less.prems(2) have "HandlePacket p \<in> set tr" by simp
    then have "HandlePacket p \<in> set (LogStart # evs)" unfolding Waiting(3) .
    moreover from nh Waiting(1) have "HandlePacket p \<notin> set (LogStart # evs)" by simp
    ultimately show ?thesis by blast
  next
    case (Failed n' p' rest evs e)
    from nh Failed(1) have notin: "HandlePacket p \<notin> set (LogStart # evs)" by simp
    from Failed(4) less.prems(2)
    have "(LogStart # evs) @ HandlePacket p' # [] = pre @ HandlePacket p # post" by simp
    from handle_position [OF this notin] have "p' = p" by simp
    with Failed(2) less.prems(3) show ?thesis by simp
  next
    case (NoLease n' p' rest evs)
    from nh NoLease(1) have notin: "HandlePacket p \<notin> set (LogStart # evs)" by simp
    from NoLease(5) less.prems(2)
    have "(LogStart # evs) @ HandlePacket p' # [] = pre @ HandlePacket p # post" by simp
    from handle_position [OF this notin] have "p' = p" by simp
    with NoLease(3) less.prems(4) show ?thesis by simp
  next
    case (Infinite n' p' rest evs l' ls')
    from nh Infinite(1) have notin: "HandlePacket p \<notin> set (LogStart # evs)" by simp
    from Infinite(6) less.prems(2)
    have "(LogStart # evs) @ HandlePacket p' # [LogInfinite] = pre @ HandlePacket p # post"
      by simp
    from handle_position [OF this notin]
    have "p' = p \<and> post = [LogInfinite]" by (simp add: Cons_eq_append_conv)
    with Infinite(3,4,5) less.prems(4) show ?thesis by simp
  next
    case (Renewing n' p' rest evs l' ls' tr')
    from nh Renewing(1) have notin: "HandlePacket p \<notin> set (LogStart # evs)" by simp
    from Renewing(6) less.prems(2)
    have "(LogStart # evs) @ HandlePacket p' # (Sleep (timeout - slop) # tr') =
          pre @ HandlePacket p # post"
      by simp
    from handle_position [OF this notin]
    consider "p' = p \<and> post = Sleep (timeout - slop) # tr'"
      | "\<exists>mid. Sleep (timeout - slop) # tr' = mid @ HandlePacket p # post"
      by blast
    then show ?thesis
    proof cases
      case 1
      from lease_loop_head [OF Renewing(5)] obtain tl where
        tl: "tr' = LogStart # (if n' then Solicit else Renew p') # tl" ..
      from 1 Renewing(3) less.prems(4) have "l' = l" by simp
      with Renewing(4) have nz: "ValidLifetime l \<noteq> 0" by simp
      from 1 tl have "post = Sleep (timeout - slop) # LogStart #
          (if n' then Solicit else Renew p) # tl" by simp
      then have "\<exists>c post'. post = Sleep (timeout - slop) # LogStart # c # post' \<and>
         (c = Solicit \<or> c = Renew p)"
        by (intro exI [of _ "if n' then Solicit else Renew p"] exI [of _ tl]) simp
      with nz show ?thesis by simp
    next
      case 2
      then obtain mid where mid: "Sleep (timeout - slop) # tr' = mid @ HandlePacket p # post" ..
      then obtain mid' where "tr' = mid' @ HandlePacket p # post"
        by (cases mid) simp_all
      from less.hyps [OF Renewing(7) Renewing(5) this less.prems(3,4)] show ?thesis .
    qed
  qed
qed

lemma five_seconds: "timeout - slop = 5 * second"
  by (simp add: timeout_def slop_def)

text \<open>
  Claim C4. Once a lease whose valid lifetime is 0 has been applied to the interface,
  \<^verbatim>\<open>dhclient4\<close> returns nil at once: nothing but the log line follows, so no renewal
  is issued after it. In particular, when the first lease obtained is infinite (after
  any number of failed requests that the counter can count), the run returns nil and
  contains no renewal at all.
\<close>
theorem infinite_lease_ends_without_renewal:
  "(dhclient4 None handle script = (out, tr) \<and> tr = pre @ HandlePacket p # post \<and>
    handle p = None \<and> Leases p = l # ls \<and> ValidLifetime l = 0 \<longrightarrow>
      out = Returned None \<and> post = [LogInfinite]) \<and>
   ((\<forall>r \<in> set fails. snd r \<noteq> None) \<and> length fails < 2 ^ 63 \<and>
    handle p = None \<and> Leases p = l # ls \<and> ValidLifetime l = 0 \<longrightarrow>
      fst (dhclient4 None handle (fails @ (p, None) # rest)) = Returned None \<and>
      (\<forall>q. Renew q \<notin> set (snd (dhclient4 None handle (fails @ (p, None) # rest)))))"
proof (intro conjI impI)
  assume a: "dhclient4 None handle script = (out, tr) \<and> tr = pre @ HandlePacket p # post \<and>
    handle p = None \<and> Leases p = l # ls \<and> ValidLifetime l = 0"
  then have "lease_loop handle True nil_packet script = (out, tr)"
    by (simp add: dhclient4_def)
  from lease_loop_after_handle [OF this, of pre p post l ls] a
  show "out = Returned None" and "post = [LogInfinite]" by simp_all
next
  assume a: "(\<forall>r \<in> set fails. snd r \<noteq> None) \<and> length fails < 2 ^ 63 \<and>
    handle p = None \<and> Leases p = l # ls \<and> ValidLifetime l = 0"
  then have "sint (0 :: go_int) + int (length fails) < 2 ^ 63" by simp
  with a retry_loop_fails_then_ok [of fails 0 True nil_packet p rest]
  obtain evs where evs: "retry_loop True nil_packet 0 (fails @ (p, None) # rest) = Left False p rest evs"
    "\<forall>q. Renew q \<notin> set evs" by auto
  with a have "dhclient4 None handle (fails @ (p, None) # rest) =
      (Returned None, LogStart # evs @ [HandlePacket p, LogInfinite])"
    by (simp add: dhclient4_def lease_loop.simps)
  with evs(2) show "fst (dhclient4 None handle (fails @ (p, None) # rest)) = Returned None"
    and "\<forall>q. Renew q \<notin> set (snd (dhclient4 None handle (fails @ (p, None) # rest)))"
    by simp_all
qed

theorem infinite_lease_ends_without_renewal_witness:
  "dhclient4 None handle_ok ([(nil_packet, Some Timeout), (nil_packet, Some OtherError)] @
       (infinite_lease, None) # [(hour_lease, None)]) =
     (Returned None,
      [LogStart, Solicit, LogTimeout, LogResendRequest, Solicit, LogError,
       LogResendRequest, Solicit, HandlePacket infinite_lease, LogInfinite]) \<and>
   (\<forall>q. Renew q \<notin> set (snd (dhclient4 None handle_ok
       ([(nil_packet, Some Timeout), (nil_packet, Some OtherError)] @
        (infinite_lease, None) # [(hour_lease, None)]))))"
proof -
  have 1: "dhclient4 None handle_ok ([(nil_packet, Some Timeout), (nil_packet, Some OtherError)] @
       (infinite_lease, None) # [(hour_lease, None)]) =
     (Returned None,
      [LogStart, Solicit, LogTimeout, LogResendRequest, Solicit, LogError,
       LogResendRequest, Solicit, HandlePacket infinite_lease, LogInfinite])"
    by code_simp
  have 2: "(\<forall>r \<in> set [(nil_packet, Some Timeout), (nil_packet, Some OtherError)]. snd r \<noteq> None) \<and>
    length [(nil_packet, Some Timeout), (nil_packet, Some OtherError)] < 2 ^ 63 \<and>
    handle_ok infinite_lease = None \<and> Leases infinite_lease = \<lparr>ValidLifetime = 0\<rparr> # [] \<and>
    ValidLifetime \<lparr>ValidLifetime = 0\<rparr> = 0"
    by (simp add: handle_ok_def infinite_lease_def)
  from infinite_lease_ends_without_renewal
    [of handle_ok "[]" Waiting "[]" "[]" infinite_lease "[]" "\<lparr>ValidLifetime = 0\<rparr>" "[]"
      "[(nil_packet, Some Timeout), (nil_packet, Some OtherError)]" "[(hour_lease, None)]"] 2
  have "\<forall>q. Renew q \<notin> set (snd (dhclient4 None handle_ok
       ([(nil_packet, Some Timeout), (nil_packet, Some OtherError)] @
        (infinite_lease, None) # [(hour_lease, None)])))" by blast
  with 1 show ?thesis by blast
qed

text \<open>
  Claim C10. After the client has been built, an error returned by \<^verbatim>\<open>dhclient4\<close>
  is the error of \<^verbatim>\<open>HandlePacket\<close> on the packet handled last, and a run that
  returns nil ends with an infinite lease being applied. No number of failed exchanges
  within the range of the counter makes the loop give up: the run is still waiting for
  the next reply.
\<close>
theorem dhclient4_returns_only_from_HandlePacket_or_infinite_lease:
  "(dhclient4 None handle script = (out, tr) \<longrightarrow>
      (\<forall>err. out = Returned (Some err) \<longrightarrow>
         (\<exists>pre p e. tr = pre @ [HandlePacket p] \<and> handle p = Some e \<and>
            err = ErrHandlePacket e)) \<and>
      (out = Returned None \<longrightarrow>
         (\<exists>pre p l ls. tr = pre @ [HandlePacket p, LogInfinite] \<and> handle p = None \<and>
            Leases p = l # ls \<and> ValidLifetime l = 0))) \<and>
   ((\<forall>r \<in> set script. snd r \<noteq> None) \<and> length script < 2 ^ 63 \<longrightarrow>
      fst (dhclient4 None handle script) = Waiting)"
proof (rule conjI; rule impI)
  assume "dhclient4 None handle script = (out, tr)"
  then have "lease_loop handle True nil_packet script = (out, tr)"
    by (simp add: dhclient4_def)
  from lease_loop_returns [OF this]
  show "(\<forall>err. out = Returned (Some err) \<longrightarrow>
         (\<exists>pre p e. tr = pre @ [HandlePacket p] \<and> handle p = Some e \<and>
            err = ErrHandlePacket e)) \<and>
      (out = Returned None \<longrightarrow>
         (\<exists>pre p l ls. tr = pre @ [HandlePacket p, LogInfinite] \<and> handle p = None \<and>
            Leases p = l # ls \<and> ValidLifetime l = 0))" .
next
  assume a: "(\<forall>r \<in> set script. snd r \<noteq> None) \<and> length script < 2 ^ 63"
  then have "sint (0 :: go_int) + int (length script) < 2 ^ 63" by simp
  with a retry_loop_all_fail [of script 0 True nil_packet]
  obtain evs where "retry_loop True nil_packet 0 script = Blocked evs" by auto
  then show "fst (dhclient4 None handle script) = Waiting"
    by (simp add: dhclient4_def lease_loop.simps)
qed

theorem dhclient4_returns_only_from_HandlePacket_or_infinite_lease_witness:
  "dhclient4 None handle_fails [(nil_packet, Some Timeout), (hour_lease, None)] =
     (Returned (Some (ErrHandlePacket ''no such device'')),
      [LogStart, Solicit, LogTimeout, LogResendRequest, Solicit, HandlePacket hour_lease]) \<and>
   (\<exists>pre p e. [LogStart, Solicit, LogTimeout, LogResendRequest, Solicit, HandlePacket hour_lease] =
       pre @ [HandlePacket p] \<and> handle_fails p = Some e \<and>
       ErrHandlePacket ''no such device'' = ErrHandlePacket e) \<and>
   fst (dhclient4 None handle_fails [(nil_packet, Some Timeout), (nil_packet, Some OtherError)]) =
     Waiting"
proof -
  have 1: "dhclient4 None handle_fails [(nil_packet, Some Timeout), (hour_lease, None)] =
     (Returned (Some (ErrHandlePacket ''no such device'')),
      [LogStart, Solicit, LogTimeout, LogResendRequest, Solicit, HandlePacket hour_lease])"
    by code_simp
  have 2: "(\<forall>r \<in> set [(nil_packet, Some Timeout), (nil_packet, Some OtherError)]. snd r \<noteq> None) \<and>
    length [(nil_packet, Some Timeout), (nil_packet, Some OtherError)] < 2 ^ 63"
    by simp
  from dhclient4_returns_only_from_HandlePacket_or_infinite_lease
    [of handle_fails "[(nil_packet, Some Timeout), (hour_lease, None)]"
      "Returned (Some (ErrHandlePacket ''no such device''))"
      "[LogStart, Solicit, LogTimeout, LogResendRequest, Solicit, HandlePacket hour_lease]"] 1
  have 3: "\<exists>pre p e. [LogStart, Solicit, LogTimeout, LogResendRequest, Solicit, HandlePacket hour_lease] =
       pre @ [HandlePacket p] \<and> handle_fails p = Some e \<and>
       ErrHandlePacket ''no such device'' = ErrHandlePacket e" by blast
  from dhclient4_returns_only_from_HandlePacket_or_infinite_lease
    [of handle_fails "[(nil_packet, Some Timeout), (nil_packet, Some OtherError)]"] 2
  have 4: "fst (dhclient4 None handle_fails [(nil_packet, Some Timeout), (nil_packet, Some OtherError)]) =
     Waiting" by blast
  from 1 3 4 show ?thesis by (intro conjI)
qed

text \<open>
  Claim C1, as stated: with a valid lifetime \<open>T\<close> above the margin the next renewal is
  not issued before \<open>T - margin\<close> has passed. This fails: with a lease of one hour the
  loop sleeps 5 seconds and then renews.
\<close>
theorem renewal_after_lifetime_minus_margin_counterexample:
  "dhclient4 None handle_ok [(hour_lease, None), (infinite_lease, None)] =
     (Returned None,
      [LogStart, Solicit, HandlePacket hour_lease, Sleep (5 * second),
       LogStart, Renew hour_lease, HandlePacket infinite_lease, LogInfinite]) \<and>
   Leases hour_lease = [\<lparr>ValidLifetime = 3600 * second\<rparr>] \<and>
   slop < 3600 * second \<and>
   5 * second < 3600 * second - slop"
proof -
  have "dhclient4 None handle_ok [(hour_lease, None), (infinite_lease, None)] =
     (Returned None,
      [LogStart, Solicit, HandlePacket hour_lease, Sleep (5 * second),
       LogStart, Renew hour_lease, HandlePacket infinite_lease, LogInfinite])"
    by code_simp
  then show ?thesis by (simp add: hour_lease_def slop_def second_def)
qed

text \<open>
  The inner loop is left by \<^verbatim>\<open>break\<close> exactly when its last event is an exchange
  (a failed exchange is followed by a log line); \<^verbatim>\<open>needsRequest\<close> is then false.
\<close>

lemma exchange_last: "exchange n pk i \<noteq> [] \<and> is_exchange (last (exchange n pk i))"
  by (simp add: exchange_def)

lemma retry_loop_left_by_break:
  "retry_loop n pk i script = Left n' p' rest evs \<Longrightarrow> evs \<noteq> [] \<Longrightarrow>
   is_exchange (last evs) \<Longrightarrow> n' = False"
proof (induction script arbitrary: pk i evs)
  case Nil
  then show ?case by (simp split: if_splits)
next
  case (Cons r script)
  obtain q err where r: "r = (q, err)" by (cases r)
  show ?case
  proof (cases "sint i > -1")
    case False
    with Cons.prems r show ?thesis by simp
  next
    case True
    show ?thesis
    proof (cases err)
      case None
      with Cons.prems r True show ?thesis by simp
    next
      case (Some e)
      with Cons.prems(1) r True obtain es where
        es: "retry_loop n q (i + 1) script = Left n' p' rest es"
        and evs: "evs = (exchange n pk i @ [if e = Timeout then LogTimeout else LogError]) @ es"
        by (cases "retry_loop n q (i + 1) script") auto
      show ?thesis
      proof (cases "es = []")
        case True
        with evs Cons.prems(3) show ?thesis by (simp split: if_splits)
      next
        case False
        with evs Cons.prems(3) have "is_exchange (last es)" by simp
        from Cons.IH [OF es False this] show ?thesis .
      qed
    qed
  qed
qed

lemma lease_loop_after_exchange:
  "lease_loop handle n pk script = (out, tr) \<Longrightarrow>
   tr = pre @ c0 # HandlePacket p # post \<Longrightarrow> is_exchange c0 \<Longrightarrow>
   handle p = None \<Longrightarrow> Leases p = l # ls \<Longrightarrow> ValidLifetime l \<noteq> 0 \<Longrightarrow>
   \<exists>post'. post = Sleep (timeout - slop) # LogStart # Renew p # post'"
proof (induction "length script" arbitrary: n pk script tr pre rule: less_induct)
  case less
  have nh: "HandlePacket p \<notin> set (LogStart # events_of (retry_loop n pk 0 script))"
    using retry_loop_no_handle [of p n pk 0 script] by simp
  from less.prems(2) have tr: "tr = (pre @ [c0]) @ HandlePacket p # post" by simp
  from less.prems(1) show ?case
  proof (cases rule: lease_loop_elim)
    case (Waiting evs)
    from tr have "HandlePacket p \<in> set tr" by simp
    then have "HandlePacket p \<in> set (LogStart # evs)" unfolding Waiting(3) .
    moreover from nh Waiting(1) have "HandlePacket p \<notin> set (LogStart # evs)" by simp
    ultimately show ?thesis by blast
  next
    case (Failed n' p' rest evs e)
    from nh Failed(1) have notin: "HandlePacket p \<notin> set (LogStart # evs)" by simp
    from Failed(4) tr
    have "(LogStart # evs) @ HandlePacket p' # [] = (pre @ [c0]) @ HandlePacket p # post" by simp
    from handle_position [OF this notin] have "p' = p" by simp
    with Failed(2) less.prems(4) show ?thesis by simp
  next
    case (NoLease n' p' rest evs)
    from nh NoLease(1) have notin: "HandlePacket p \<notin> set (LogStart # evs)" by simp
    from NoLease(5) tr
    have "(LogStart # evs) @ HandlePacket p' # [] = (pre @ [c0]) @ HandlePacket p # post" by simp
    from handle_position [OF this notin] have "p' = p" by simp
    with NoLease(3) less.prems(5) show ?thesis by simp
  next
    case (Infinite n' p' rest evs l' ls')
    from nh Infinite(1) have notin: "HandlePacket p \<notin> set (LogStart # evs)" by simp
    from Infinite(6) tr
    have "(LogStart # evs) @ HandlePacket p' # [LogInfinite] =
          (pre @ [c0]) @ HandlePacket p # post"
      by simp
    from handle_position [OF this notin]
    have "p' = p" by (simp add: Cons_eq_append_conv)
    with Infinite(3,4) less.prems(5,6) show ?thesis by simp
  next
    case (Renewing n' p' rest evs l' ls' tr')
    from nh Renewing(1) have notin: "HandlePacket p \<notin> set (LogStart # evs)" by simp
    from Renewing(6) tr
    have eq: "(LogStart # evs) @ HandlePacket p' # (Sleep (timeout - slop) # tr') =
          (pre @ [c0]) @ HandlePacket p # post"
      by simp
    from split_at_first [OF eq notin]
    consider "pre @ [c0] = LogStart # evs" "p' = p" "post = Sleep (timeout - slop) # tr'"
      | mid where "pre @ [c0] = (LogStart # evs) @ HandlePacket p' # mid"
          "Sleep (timeout - slop) # tr' = mid @ HandlePacket p # post"
      by auto
    then show ?thesis
    proof cases
      case 1
      from 1(1) less.prems(3) have "evs \<noteq> []" by (cases evs) auto
      moreover from this 1(1) have "last evs = c0"
        by (metis last_ConsR last_snoc)
      ultimately have "n' = False"
        using retry_loop_left_by_break [OF Renewing(1)] less.prems(3) by simp
      with lease_loop_head [OF Renewing(5)] 1(2) obtain tl where
        "tr' = LogStart # Renew p # tl" by auto
      with 1(3) show ?thesis by simp
    next
      case 2
      from 2(2) obtain mid' where mid: "mid = Sleep (timeout - slop) # mid'"
        and tr': "tr' = mid' @ HandlePacket p # post"
        by (cases mid) simp_all
      from 2(1) mid less.prems(3) have "mid' \<noteq> []" by (cases mid') auto
      then obtain pre' x where m: "mid' = pre' @ [x]" by (metis rev_exhaust)
      with 2(1) mid have "x = c0" by simp
      with tr' m have "tr' = pre' @ c0 # HandlePacket p # post" by simp
      from less.hyps [OF Renewing(7) Renewing(5) this less.prems(3-6)] show ?thesis .
    qed
  qed
qed

text \<open>
  Claim C1, amended. Take a lease that an exchange has returned without error (the
  exchange is the event just before \<^verbatim>\<open>HandlePacket\<close>), that has been applied to the
  interface, and whose valid lifetime \<open>T\<close> is above the margin \<open>slop\<close> of 10 seconds.
  The loop then sleeps \<open>timeout - slop\<close>, 5 seconds, not \<open>T - slop\<close>, and the next
  exchange is the renewal of that lease. The time slept before the renewal is below
  \<open>T\<close>, and it is below \<open>T - slop\<close> whenever \<open>T\<close> is above 15 seconds.
\<close>

theorem renewal_sleep_is_timeout_minus_slop:
  assumes "dhclient4 None handle script = (out, tr)"
    and "tr = pre @ c0 # HandlePacket p # post"
    and "is_exchange c0"
    and "handle p = None"
    and "Leases p = l # ls"
    and "slop < ValidLifetime l"
  shows "\<exists>d post'. post = Sleep d # LogStart # Renew p # post' \<and>
           slept_before_exchange post = Some (d, Renew p) \<and>
           d = timeout - slop \<and> d = 5 * second \<and>
           d < ValidLifetime l \<and>
           (15 * second < ValidLifetime l \<longrightarrow> d < ValidLifetime l - slop)"
proof -
  from assms(1) have run: "lease_loop handle True nil_packet script = (out, tr)"
    by (simp add: dhclient4_def)
  from assms(6) have nz: "ValidLifetime l \<noteq> 0" by (simp add: slop_def second_def)
  from lease_loop_after_exchange [OF run assms(2-5) nz] obtain post' where
    post: "post = Sleep (timeout - slop) # LogStart # Renew p # post'" ..
  then have "slept_before_exchange post = Some (timeout - slop, Renew p)" by simp
  moreover from assms(6) have "timeout - slop < ValidLifetime l"
    by (simp add: timeout_def slop_def second_def)
  moreover have "15 * second < ValidLifetime l \<longrightarrow> timeout - slop < ValidLifetime l - slop"
    by (simp add: timeout_def slop_def second_def)
  ultimately show ?thesis using post by (simp add: five_seconds)
qed

theorem renewal_sleep_is_timeout_minus_slop_witness:
  "dhclient4 None handle_ok [(hour_lease, None), (infinite_lease, None)] =
     (Returned None,
      [LogStart] @ Solicit # HandlePacket hour_lease #
      [Sleep (5 * second), LogStart, Renew hour_lease, HandlePacket infinite_lease, LogInfinite]) \<and>
   is_exchange Solicit \<and>
   slop < ValidLifetime \<lparr>ValidLifetime = 3600 * second\<rparr> \<and>
   (\<exists>d post'. [Sleep (5 * second), LogStart, Renew hour_lease, HandlePacket infinite_lease,
                LogInfinite] = Sleep d # LogStart # Renew hour_lease # post' \<and>
       slept_before_exchange [Sleep (5 * second), LogStart, Renew hour_lease,
         HandlePacket infinite_lease, LogInfinite] = Some (d, Renew hour_lease) \<and>
       d = timeout - slop \<and> d = 5 * second \<and>
       d < ValidLifetime \<lparr>ValidLifetime = 3600 * second\<rparr> \<and>
       (15 * second < ValidLifetime \<lparr>ValidLifetime = 3600 * second\<rparr> \<longrightarrow>
        d < ValidLifetime \<lparr>ValidLifetime = 3600 * second\<rparr> - slop))"
proof -
  have 1: "dhclient4 None handle_ok [(hour_lease, None), (infinite_lease, None)] =
     (Returned None,
      [LogStart] @ Solicit # HandlePacket hour_lease #
      [Sleep (5 * second), LogStart, Renew hour_lease, HandlePacket infinite_lease, LogInfinite])"
    by code_simp
  have 2: "is_exchange Solicit" by simp
  have 3: "handle_ok hour_lease = None" by (simp add: handle_ok_def)
  have 4: "Leases hour_lease = \<lparr>ValidLifetime = 3600 * second\<rparr> # []"
    by (simp add: hour_lease_def)
  have 5: "slop < ValidLifetime \<lparr>ValidLifetime = 3600 * second\<rparr>"
    by (simp add: slop_def second_def)
  from renewal_sleep_is_timeout_minus_slop [OF 1 refl 2 3 4 5] 1 2 5 show ?thesis
    by (intro conjI)
qed

end
